theory Spec2Isabelle
  imports Main "HOL-Library.Char_ord" "HOL-Library.List_Lexorder"
begin

section \<open>Values shared by the script and the store\<close>

text \<open>
  The script \<^verbatim>\<open>src/main.py\<close> loads a word list into a wide-column table, reads one row back
  through a filter, scans a key range and deletes the table. Byte strings are \<open>string\<close>
  (a list of 8-bit characters), compared lexicographically byte by byte. Text (\<^verbatim>\<open>str\<close>) is
  represented by its UTF-8 encoding, so \<^verbatim>\<open>encode()\<close> is the identity; the characters of a text
  are the groups of bytes that encode one code point each, and \<^verbatim>\<open>len\<close>, \<^verbatim>\<open>zip\<close> and
  \<^verbatim>\<open>rstrip\<close> work on these groups. Timestamps are integers (the clock reading of
  \<^verbatim>\<open>utcnow()\<close>).
\<close>

type_synonym bytes = string
type_synonym timestamp = int

text \<open>A cell value is a byte string or an integer, the two cases \<^verbatim>\<open>_print_row\<close> tells apart.\<close>

datatype cell_value = Bytes bytes | Integer int

text \<open>What a Python call evaluates to, where the script's functions return.\<close>

datatype pyval = PyNone | PyInt int | PyStr string

datatype error =
    ConfigurationError | DuplicateFamilyError | TableExistsError | NotFoundError
  | BatchTooLargeError | RowMutationError bytes
  | KeyError | IndexError | AttributeError | UnicodeDecodeError

section \<open>Row mutations built by the script\<close>

text \<open>
  \<^verbatim>\<open>table.direct_row(row_key)\<close> makes an empty mutation set for one row key and
  \<^verbatim>\<open>row.set_cell(family, column, value, timestamp)\<close> appends one cell write to it.
\<close>

record direct_row =
  dr_row_key :: bytes
  dr_mutations :: "(string \<times> bytes \<times> cell_value \<times> timestamp) list"

definition direct_row :: "bytes \<Rightarrow> direct_row" where
  "direct_row k = \<lparr>dr_row_key = k, dr_mutations = []\<rparr>"

definition set_cell :: "direct_row \<Rightarrow> string \<Rightarrow> bytes \<Rightarrow> cell_value \<Rightarrow> timestamp \<Rightarrow> direct_row" where
  "set_cell r fam col v ts = r\<lparr>dr_mutations := dr_mutations r @ [(fam, col, v, ts)]\<rparr>"

section \<open>The word writer: \<^verbatim>\<open>_write_words\<close>\<close>

definition MUTATION_BATCHSIZE :: nat where
  "MUTATION_BATCHSIZE = 500"

text \<open>
  The characters of a text (\<^verbatim>\<open>list(word)\<close>): in UTF-8 a character is one byte that is not a
  continuation byte, with the continuation bytes (\<open>0x80\<close> to \<open>0xBF\<close>) that follow it.
\<close>

definition continuation :: "char \<Rightarrow> bool" where
  "continuation c \<longleftrightarrow> 0x80 \<le> (of_char c :: nat) \<and> (of_char c :: nat) \<le> 0xBF"

function chars :: "string \<Rightarrow> string list" where
  "chars [] = []"
| "chars (c # cs) = (c # takeWhile continuation cs) # chars (dropWhile continuation cs)"
  by pat_completeness auto
termination
  by (relation "measure length") (auto simp: length_dropWhile_le le_imp_less_Suc)

text \<open>
  The characters for which \<^verbatim>\<open>str.isspace\<close> holds, each as its encoding: U+0009 to U+000D,
  U+001C to U+001F, U+0020, U+0085, U+00A0, U+1680, U+2000 to U+200A, U+2028, U+2029, U+202F,
  U+205F and U+3000. \<^verbatim>\<open>rstrip()\<close> drops them at the end of the text.
\<close>

definition isspace :: "string \<Rightarrow> bool" where
  "isspace ch \<longleftrightarrow> ch \<in> set
     [[CHR 0x09], [CHR 0x0A], [CHR 0x0B], [CHR 0x0C], [CHR 0x0D],
      [CHR 0x1C], [CHR 0x1D], [CHR 0x1E], [CHR 0x1F], [CHR 0x20],
      [CHR 0xC2, CHR 0x85], [CHR 0xC2, CHR 0xA0], [CHR 0xE1, CHR 0x9A, CHR 0x80],
      [CHR 0xE2, CHR 0x80, CHR 0x80], [CHR 0xE2, CHR 0x80, CHR 0x81],
      [CHR 0xE2, CHR 0x80, CHR 0x82], [CHR 0xE2, CHR 0x80, CHR 0x83],
      [CHR 0xE2, CHR 0x80, CHR 0x84], [CHR 0xE2, CHR 0x80, CHR 0x85],
      [CHR 0xE2, CHR 0x80, CHR 0x86], [CHR 0xE2, CHR 0x80, CHR 0x87],
      [CHR 0xE2, CHR 0x80, CHR 0x88], [CHR 0xE2, CHR 0x80, CHR 0x89],
      [CHR 0xE2, CHR 0x80, CHR 0x8A], [CHR 0xE2, CHR 0x80, CHR 0xA8],
      [CHR 0xE2, CHR 0x80, CHR 0xA9], [CHR 0xE2, CHR 0x80, CHR 0xAF],
      [CHR 0xE2, CHR 0x81, CHR 0x9F], [CHR 0xE3, CHR 0x80, CHR 0x80]]"

definition rstrip :: "string \<Rightarrow> string" where
  "rstrip s = concat (rev (dropWhile isspace (rev (chars s))))"

text \<open>\<^verbatim>\<open>str(n)\<close> for a length: the decimal digits of \<open>n\<close>.\<close>

fun str_nat :: "nat \<Rightarrow> string" where
  "str_nat n = (if n < 10 then [''0123456789'' ! n]
                else str_nat (n div 10) @ [''0123456789'' ! (n mod 10)])"

declare str_nat.simps [simp del]

text \<open>
  Lines 46 to 57: the row mutation built for one line, given the previous word and the clock
  reading of this iteration. \<^verbatim>\<open>len\<close> counts the characters of the word and \<^verbatim>\<open>zip\<close> pairs
  the characters of the two words; the shared root is a text, handed to \<^verbatim>\<open>set_cell\<close> as it
  is and kept in the cell as its encoding.
\<close>

definition word_row :: "string \<Rightarrow> string \<Rightarrow> string \<Rightarrow> timestamp \<Rightarrow> direct_row" where
  "word_row attrs_col_family prev_word line tstamp =
     (let word = rstrip line;
          att_letters = str_nat (length (chars word));
          shared_with_prev = map fst (filter (\<lambda>(i, j). i = j) (zip (chars word) (chars prev_word)));
          att_shared_root_with_prev = concat shared_with_prev;
          row_key = word;
          row = direct_row row_key;
          row = set_cell row attrs_col_family ''att_letters'' (Bytes att_letters) tstamp;
          row = set_cell row attrs_col_family ''att_shared_root_with_prev''
                  (Bytes att_shared_root_with_prev) tstamp
      in row)"

text \<open>
  The loop state: the pending rows, the previous word, what was printed, and the table the
  mutations are sent to. The table is any state \<open>'t\<close> with its \<^verbatim>\<open>mutate_rows\<close> method passed
  along as \<open>mutate\<close>; the script ignores what \<^verbatim>\<open>mutate_rows\<close> returns.
\<close>

record 't writer =
  rows :: "direct_row list"
  prev_word :: string
  out :: "string list"
  tbl :: 't

definition send_batch :: "('t \<Rightarrow> direct_row list \<Rightarrow> 't) \<Rightarrow> 't writer \<Rightarrow> 't writer" where
  "send_batch mutate st =
     st\<lparr>out := out st @ [''Writing mutations batch...''],
        tbl := mutate (tbl st) (rows st)\<rparr>"

text \<open>
  Lines 45 to 63: one iteration per line of the file; each line comes with the clock reading
  taken in its iteration. \<open>B\<close> is the batch size.
\<close>

fun write_loop :: "nat \<Rightarrow> ('t \<Rightarrow> direct_row list \<Rightarrow> 't) \<Rightarrow> string \<Rightarrow>
    (string \<times> timestamp) list \<Rightarrow> 't writer \<Rightarrow> 't writer" where
  "write_loop B mutate fam [] st = st"
| "write_loop B mutate fam ((line, tstamp) # rest) st =
     (let row = word_row fam (prev_word st) line tstamp;
          st = st\<lparr>prev_word := rstrip line, rows := rows st @ [row]\<rparr>;
          st = (if length (rows st) \<ge> B then (send_batch mutate st)\<lparr>rows := []\<rparr> else st)
      in write_loop B mutate fam rest st)"

text \<open>
  The whole function with the batch size as a parameter: what it returns (the function has no
  \<^verbatim>\<open>return\<close> statement), what it printed, and the table afterwards.
\<close>

definition write_words_sized :: "nat \<Rightarrow> ('t \<Rightarrow> direct_row list \<Rightarrow> 't) \<Rightarrow> 't \<Rightarrow>
    (string \<times> timestamp) list \<Rightarrow> string \<Rightarrow> pyval \<times> string list \<times> 't" where
  "write_words_sized B mutate table lines attrs_col_family =
     (let st = \<lparr>rows = [], prev_word = [], out = [''Writing words....''], tbl = table\<rparr>;
          st = write_loop B mutate attrs_col_family lines st;
          st = (if length (rows st) > 0 then send_batch mutate st else st)
      in (PyNone, out st, tbl st))"

definition write_words :: "('t \<Rightarrow> direct_row list \<Rightarrow> 't) \<Rightarrow> 't \<Rightarrow>
    (string \<times> timestamp) list \<Rightarrow> string \<Rightarrow> pyval \<times> string list \<times> 't" where
  "write_words = write_words_sized MUTATION_BATCHSIZE"

text \<open>
  A table that only records the calls it receives: each \<^verbatim>\<open>mutate_rows(rows)\<close> appends its
  argument to the log.
\<close>

definition record_call :: "direct_row list list \<Rightarrow> direct_row list \<Rightarrow> direct_row list list" where
  "record_call log batch = log @ [batch]"

definition sent_batches :: "nat \<Rightarrow> (string \<times> timestamp) list \<Rightarrow> string \<Rightarrow> direct_row list list" where
  "sent_batches B lines fam = snd (snd (write_words_sized B record_call [] lines fam))"

text \<open>The row mutations of a whole file in input order, each built from the word before it.\<close>

fun word_rows :: "string \<Rightarrow> string \<Rightarrow> (string \<times> timestamp) list \<Rightarrow> direct_row list" where
  "word_rows fam prev [] = []"
| "word_rows fam prev ((line, tstamp) # rest) =
     word_row fam prev line tstamp # word_rows fam (rstrip line) rest"

section \<open>The store engine behind the client calls\<close>

text \<open>
  The client library and the service behind \<^verbatim>\<open>table.create\<close>, \<^verbatim>\<open>mutate_rows\<close>,
  \<^verbatim>\<open>read_row\<close>, \<^verbatim>\<open>read_rows\<close> and \<^verbatim>\<open>table.delete\<close> are not part of the repository's
  sources. Their definitions below follow the specification's component contracts (Cell Store,
  Column Family Manager, Mutation Batcher, Query Engine, Table Lifecycle Manager).
\<close>

subsection \<open>Cell Store\<close>

text \<open>
  Modelled from the spec: the Cell Store is missing from the sources. It is an ordered storage
  of (row key, column family, column qualifier, timestamp) to value: rows ascending by key, the
  families of a row and the qualifiers of a family ascending by name, the versions of one
  qualifier newest first.
\<close>

type_synonym versions = "(timestamp \<times> cell_value) list"
type_synonym columns = "(bytes \<times> versions) list"
type_synonym row_data = "(string \<times> columns) list"
type_synonym cell_store = "(bytes \<times> row_data) list"

text \<open>A row as a read returns it: \<^verbatim>\<open>row.row_key\<close> and \<^verbatim>\<open>row.cells[family][column]\<close>.\<close>

record row =
  row_key :: bytes
  cells :: row_data

text \<open>
  Modelled from the spec: inserting a version keeps the versions newest first, and a duplicate
  timestamp overwrites that version's value.
\<close>

fun put_version :: "timestamp \<Rightarrow> cell_value \<Rightarrow> versions \<Rightarrow> versions" where
  "put_version ts v [] = [(ts, v)]"
| "put_version ts v ((ts', v') # vs) =
     (if ts' < ts then (ts, v) # (ts', v') # vs
      else if ts' = ts then (ts, v) # vs
      else (ts', v') # put_version ts v vs)"

text \<open>
  Changing the entry of one key in an ascending association list; a key that is absent is
  entered with \<open>f d\<close>.
\<close>

fun modify :: "'v \<Rightarrow> ('v \<Rightarrow> 'v) \<Rightarrow> 'k::linorder \<Rightarrow> ('k \<times> 'v) list \<Rightarrow> ('k \<times> 'v) list" where
  "modify d f k [] = [(k, f d)]"
| "modify d f k ((k', v) # xs) =
     (if k < k' then (k, f d) # (k', v) # xs
      else if k = k' then (k', f v) # xs
      else (k', v) # modify d f k xs)"

definition entries :: "'k \<Rightarrow> ('k \<times> 'v list) list \<Rightarrow> 'v list" where
  "entries k xs = (case map_of xs k of None \<Rightarrow> [] | Some v \<Rightarrow> v)"

text \<open>Modelled from the spec: \<^verbatim>\<open>put(rowKey, family, qualifier, timestamp, value)\<close>.\<close>

definition put :: "cell_store \<Rightarrow> bytes \<Rightarrow> string \<Rightarrow> bytes \<Rightarrow> timestamp \<Rightarrow> cell_value \<Rightarrow> cell_store" where
  "put cs rowKey family qualifier ts v =
     modify [] (modify [] (modify [] (put_version ts v) qualifier) family) rowKey cs"

text \<open>
  Modelled from the spec: \<^verbatim>\<open>get(rowKey, family, qualifier)\<close>, the versions of one column
  newest first (none when the cell does not exist).
\<close>

definition get :: "cell_store \<Rightarrow> bytes \<Rightarrow> string \<Rightarrow> bytes \<Rightarrow> versions" where
  "get cs rowKey family qualifier = entries qualifier (entries family (entries rowKey cs))"

text \<open>
  Modelled from the spec: \<^verbatim>\<open>scan(startKey inclusive, endKey exclusive)\<close> walks the ordered
  rows, skipping the keys below the start and stopping at the first key not below the end.
\<close>

definition scan :: "cell_store \<Rightarrow> bytes \<Rightarrow> bytes \<Rightarrow> row list" where
  "scan cs startKey endKey =
     map (\<lambda>(k, d). \<lparr>row_key = k, cells = d\<rparr>)
       (takeWhile (\<lambda>(k, d). k < endKey) (dropWhile (\<lambda>(k, d). k < startKey) cs))"

definition deleteAll :: "cell_store \<Rightarrow> cell_store" where
  "deleteAll cs = []"

text \<open>
  The shape every store built by \<open>put\<close> has: keys strictly ascending at each level, versions
  strictly descending by timestamp, and no row, family or column without a cell.
\<close>

definition versions_inv :: "versions \<Rightarrow> bool" where
  "versions_inv vs \<longleftrightarrow> sorted_wrt (>) (map fst vs)"

definition columns_inv :: "columns \<Rightarrow> bool" where
  "columns_inv cols \<longleftrightarrow>
     sorted_wrt (<) (map fst cols) \<and> list_all (\<lambda>(q, vs). vs \<noteq> [] \<and> versions_inv vs) cols"

definition row_inv :: "row_data \<Rightarrow> bool" where
  "row_inv rd \<longleftrightarrow>
     sorted_wrt (<) (map fst rd) \<and> list_all (\<lambda>(f, cols). cols \<noteq> [] \<and> columns_inv cols) rd"

definition store_inv :: "cell_store \<Rightarrow> bool" where
  "store_inv cs \<longleftrightarrow>
     sorted_wrt (<) (map fst cs) \<and> list_all (\<lambda>(k, rd). rd \<noteq> [] \<and> row_inv rd) cs"

subsection \<open>Column Family Manager\<close>

text \<open>
  Modelled from the spec: the GC rules are missing from the sources. The script uses one rule,
  "retain only the N most recent versions per qualifier"; a negative count is malformed.
\<close>

datatype gc_rule = MaxVersions int

fun malformed :: "gc_rule \<Rightarrow> bool" where
  "malformed (MaxVersions n) = (n < 0)"

text \<open>Modelled from the spec: \<^verbatim>\<open>defineFamily(name, gcRule)\<close>.\<close>

definition defineFamily :: "(string \<times> gc_rule) list \<Rightarrow> string \<Rightarrow> gc_rule \<Rightarrow>
    error + (string \<times> gc_rule) list" where
  "defineFamily fams name gcRule =
     (if name \<in> set (map fst fams) then Inl DuplicateFamilyError
      else if malformed gcRule then Inl ConfigurationError
      else Inr (fams @ [(name, gcRule)]))"

fun defineFamilies :: "(string \<times> gc_rule) list \<Rightarrow> (string \<times> gc_rule) list \<Rightarrow>
    error + (string \<times> gc_rule) list" where
  "defineFamilies fams [] = Inr fams"
| "defineFamilies fams ((name, gcRule) # rest) =
     (case defineFamily fams name gcRule of
        Inl e \<Rightarrow> Inl e
      | Inr fams' \<Rightarrow> defineFamilies fams' rest)"

text \<open>A table owns its column families with their GC rules, and its Cell Store.\<close>

record table =
  families :: "(string \<times> gc_rule) list"
  store :: cell_store

text \<open>The versions a rule retains, of the versions of one qualifier (newest first).\<close>

fun retain :: "gc_rule \<Rightarrow> versions \<Rightarrow> versions" where
  "retain (MaxVersions n) vs = take (nat n) vs"

definition gc_columns :: "gc_rule \<Rightarrow> columns \<Rightarrow> columns" where
  "gc_columns rule cols =
     filter (\<lambda>(q, vs). vs \<noteq> []) (map (\<lambda>(q, vs). (q, retain rule vs)) cols)"

definition gc_row_data :: "gc_rule \<Rightarrow> string \<Rightarrow> row_data \<Rightarrow> row_data" where
  "gc_row_data rule family rd =
     filter (\<lambda>(f, cols). cols \<noteq> [])
       (map (\<lambda>(f, cols). (f, if f = family then gc_columns rule cols else cols)) rd)"

definition gc_store :: "gc_rule \<Rightarrow> bytes \<Rightarrow> string \<Rightarrow> cell_store \<Rightarrow> cell_store" where
  "gc_store rule rowKey family cs =
     filter (\<lambda>(k, rd). rd \<noteq> [])
       (map (\<lambda>(k, rd). (k, if k = rowKey then gc_row_data rule family rd else rd)) cs)"

text \<open>
  Modelled from the spec: \<^verbatim>\<open>applyGC(rowKey, family)\<close> removes, for every qualifier of that
  family in that row, the versions that violate the family's rule. When the engine runs it
  (on reads, on compaction) is not part of this model: it is an operation of its own.
\<close>

definition applyGC :: "table \<Rightarrow> bytes \<Rightarrow> string \<Rightarrow> table" where
  "applyGC t rowKey family =
     (case map_of (families t) family of
        None \<Rightarrow> t
      | Some rule \<Rightarrow> t\<lparr>store := gc_store rule rowKey family (store t)\<rparr>)"

subsection \<open>Mutation Batcher\<close>

text \<open>
  Modelled from the spec: applying a chunk of row mutations (\<^verbatim>\<open>table.mutate_rows(rows)\<close>) is
  missing from the sources. Each row mutation is applied as a unit and gets a status of its own;
  a table accepts writes only when it has at least one column family.
\<close>

datatype status = Ok | Failed error

definition apply_row :: "table \<Rightarrow> direct_row \<Rightarrow> status \<times> table" where
  "apply_row t r =
     (if families t = [] then (Failed (RowMutationError (dr_row_key r)), t)
      else (Ok, t\<lparr>store := foldl (\<lambda>cs (fam, col, v, ts). put cs (dr_row_key r) fam col ts v)
                               (store t) (dr_mutations r)\<rparr>))"

fun mutate_rows :: "table \<Rightarrow> direct_row list \<Rightarrow> status list \<times> table" where
  "mutate_rows t [] = ([], t)"
| "mutate_rows t (r # rs) =
     (let (s, t) = apply_row t r;
          (ss, t) = mutate_rows t rs
      in (s # ss, t))"

text \<open>The call as the script makes it: the returned statuses are dropped.\<close>

definition mutate_rows_call :: "table \<Rightarrow> direct_row list \<Rightarrow> table" where
  "mutate_rows_call t rs = snd (mutate_rows t rs)"

subsection \<open>Query Engine\<close>

text \<open>
  Modelled from the spec: the read path is missing from the sources. A filter restricts what
  one read returns; \<^verbatim>\<open>LimitVersionsPerColumn(N)\<close> (\<^verbatim>\<open>CellsColumnLimitFilter(N)\<close> in the
  script) keeps the N most recent versions of every column.
\<close>

datatype row_filter = LimitVersionsPerColumn nat

fun apply_filter :: "row_filter option \<Rightarrow> row \<Rightarrow> row" where
  "apply_filter None r = r"
| "apply_filter (Some (LimitVersionsPerColumn n)) r =
     r\<lparr>cells := map (\<lambda>(f, cols). (f, map (\<lambda>(q, vs). (q, take n vs)) cols)) (cells r)\<rparr>"

text \<open>Modelled from the spec: \<^verbatim>\<open>readRow(rowKey, filter?) -> Row | NotFound\<close>; \<open>None\<close> is NotFound.\<close>

definition readRow :: "table \<Rightarrow> bytes \<Rightarrow> row_filter option \<Rightarrow> row option" where
  "readRow t rowKey flt =
     (case map_of (store t) rowKey of
        None \<Rightarrow> None
      | Some d \<Rightarrow> Some (apply_filter flt \<lparr>row_key = rowKey, cells = d\<rparr>))"

text \<open>Modelled from the spec: \<^verbatim>\<open>readRange(startKey, endKey, filter?)\<close>.\<close>

definition readRange :: "table \<Rightarrow> bytes \<Rightarrow> bytes \<Rightarrow> row_filter option \<Rightarrow> row list" where
  "readRange t startKey endKey flt = map (apply_filter flt) (scan (store t) startKey endKey)"

subsection \<open>Table Lifecycle Manager\<close>

text \<open>
  Modelled from the spec: \<^verbatim>\<open>create\<close>, \<^verbatim>\<open>exists\<close> and \<^verbatim>\<open>delete\<close> are missing from the
  sources. The tables of an instance are a map from table name to table.
\<close>

type_synonym tables = "string \<rightharpoonup> table"

definition exists :: "tables \<Rightarrow> string \<Rightarrow> bool" where
  "exists ts name \<longleftrightarrow> ts name \<noteq> None"

definition create :: "tables \<Rightarrow> string \<Rightarrow> (string \<times> gc_rule) list \<Rightarrow> error + tables" where
  "create ts name familyConfigs =
     (if exists ts name then Inl TableExistsError
      else (case defineFamilies [] familyConfigs of
              Inl e \<Rightarrow> Inl e
            | Inr fams \<Rightarrow> Inr (ts(name \<mapsto> \<lparr>families = fams, store = []\<rparr>))))"

definition delete :: "tables \<Rightarrow> string \<Rightarrow> error + tables" where
  "delete ts name =
     (if exists ts name then Inr (ts(name := None)) else Inl NotFoundError)"

section \<open>The row printer: \<^verbatim>\<open>_print_row\<close>\<close>

text \<open>
  \<^verbatim>\<open>bytes.decode()\<close> is strict UTF-8: it raises \<^verbatim>\<open>UnicodeDecodeError\<close> on an ill-formed
  byte sequence. The decoded text is represented by its encoding, the bytes themselves.
\<close>

definition within :: "nat \<Rightarrow> nat \<Rightarrow> char \<Rightarrow> bool" where
  "within lo hi c \<longleftrightarrow> lo \<le> of_char c \<and> (of_char c :: nat) \<le> hi"

fun utf8_valid :: "bytes \<Rightarrow> bool" where
  "utf8_valid [] = True"
| "utf8_valid (c # cs) =
     (if within 0x00 0x7F c then utf8_valid cs
      else if within 0xC2 0xDF c then
        (case cs of
           c1 # r \<Rightarrow> within 0x80 0xBF c1 \<and> utf8_valid r
         | _ \<Rightarrow> False)
      else if within 0xE0 0xEF c then
        (case cs of
           c1 # c2 # r \<Rightarrow>
             within (if c = CHR 0xE0 then 0xA0 else 0x80) (if c = CHR 0xED then 0x9F else 0xBF) c1
             \<and> within 0x80 0xBF c2 \<and> utf8_valid r
         | _ \<Rightarrow> False)
      else if within 0xF0 0xF4 c then
        (case cs of
           c1 # c2 # c3 # r \<Rightarrow>
             within (if c = CHR 0xF0 then 0x90 else 0x80) (if c = CHR 0xF4 then 0x8F else 0xBF) c1
             \<and> within 0x80 0xBF c2 \<and> within 0x80 0xBF c3 \<and> utf8_valid r
         | _ \<Rightarrow> False)
      else False)"

definition decode :: "bytes \<Rightarrow> error + string" where
  "decode b = (if utf8_valid b then Inr b else Inl UnicodeDecodeError)"

text \<open>\<^verbatim>\<open>cell.value.decode()\<close>: an integer has no such method.\<close>

fun value_decode :: "cell_value \<Rightarrow> error + string" where
  "value_decode (Bytes b) = decode b"
| "value_decode (Integer n) = Inl AttributeError"

text \<open>
  An f-string formats a byte string as its \<^verbatim>\<open>repr\<close>: \<^verbatim>\<open>b'...'\<close>, in double quotes when the
  bytes hold a single quote and no double quote, with backslash escapes.
\<close>

definition hex2 :: "nat \<Rightarrow> string" where
  "hex2 n = [''0123456789abcdef'' ! (n div 16), ''0123456789abcdef'' ! (n mod 16)]"

definition escape_byte :: "char \<Rightarrow> char \<Rightarrow> string" where
  "escape_byte quote c =
     (if c = quote \<or> c = CHR 0x5C then [CHR 0x5C, c]
      else if c = CHR 0x09 then [CHR 0x5C, CHR ''t'']
      else if c = CHR 0x0A then [CHR 0x5C, CHR ''n'']
      else if c = CHR 0x0D then [CHR 0x5C, CHR ''r'']
      else if (of_char c :: nat) < 0x20 \<or> (of_char c :: nat) \<ge> 0x7F
        then [CHR 0x5C, CHR ''x''] @ hex2 (of_char c)
      else [c])"

definition bytes_repr :: "bytes \<Rightarrow> string" where
  "bytes_repr b =
     (let quote = (if CHR 0x27 \<in> set b \<and> CHR 0x22 \<notin> set b then CHR 0x22 else CHR 0x27)
      in ''b'' @ [quote] @ concat (map (escape_byte quote) b) @ [quote])"

text \<open>\<^verbatim>\<open>sep.join(values)\<close>.\<close>

fun join :: "string \<Rightarrow> string list \<Rightarrow> string" where
  "join sep [] = []"
| "join sep [x] = x"
| "join sep (x # y # ys) = x @ sep @ join sep (y # ys)"

text \<open>
  Lines 72 to 78, the loop over the columns of the family. A cell is its timestamp and value;
  \<^verbatim>\<open>[0]\<close> on an empty list raises \<^verbatim>\<open>IndexError\<close>. The variable \<open>value\<close> receives the result
  of the type dispatch.
\<close>

fun print_row_loop :: "(bytes \<times> versions) list \<Rightarrow> string list \<Rightarrow> error + string list" where
  "print_row_loop [] values = Inr values"
| "print_row_loop ((column, column_cells) # rest) values =
     (case column_cells of
        [] \<Rightarrow> Inl IndexError
      | cell # _ \<Rightarrow>
          (case (case snd cell of
                   Integer n \<Rightarrow> Inr (PyInt n)
                 | Bytes b \<Rightarrow> (case decode b of Inl e \<Rightarrow> Inl e | Inr s \<Rightarrow> Inr (PyStr s))) of
             Inl e \<Rightarrow> Inl e
           | Inr value \<Rightarrow>
               (case value_decode (snd cell) of
                  Inl e \<Rightarrow> Inl e
                | Inr s \<Rightarrow> print_row_loop rest (values @ [bytes_repr column @ '':'' @ s]))))"

text \<open>
  The function: the line it prints, or the exception it raises. \<^verbatim>\<open>row.cells[family]\<close> raises
  \<^verbatim>\<open>KeyError\<close> when the row has no cell in the family.
\<close>

definition print_row :: "row \<Rightarrow> string \<Rightarrow> error + string" where
  "print_row r column_family_id =
     (case map_of (cells r) column_family_id of
        None \<Rightarrow> Inl KeyError
      | Some columns \<Rightarrow>
          (case print_row_loop columns [] of
             Inl e \<Rightarrow> Inl e
           | Inr values \<Rightarrow>
               (let values_str = join '' - '' values
                in Inr (''Row: '' @ bytes_repr (row_key r) @ '' - '' @ values_str))))"

text \<open>
  The same loop without the type dispatch of lines 74 to 77: only the \<^verbatim>\<open>decode()\<close> call of
  line 78 is left. It is what \<^verbatim>\<open>_print_row\<close> is compared with.
\<close>

fun print_row_loop_no_dispatch :: "(bytes \<times> versions) list \<Rightarrow> string list \<Rightarrow> error + string list" where
  "print_row_loop_no_dispatch [] values = Inr values"
| "print_row_loop_no_dispatch ((column, column_cells) # rest) values =
     (case column_cells of
        [] \<Rightarrow> Inl IndexError
      | cell # _ \<Rightarrow>
          (case value_decode (snd cell) of
             Inl e \<Rightarrow> Inl e
           | Inr s \<Rightarrow> print_row_loop_no_dispatch rest (values @ [bytes_repr column @ '':'' @ s])))"

text \<open>
  A family's columns among which the cell that \<^verbatim>\<open>_print_row\<close> prints for some column,
  the first of its list, holds an integer.
\<close>

definition prints_integer_cell :: "(bytes \<times> versions) list \<Rightarrow> bool" where
  "prints_integer_cell columns =
     list_ex (\<lambda>(column, column_cells).
        case column_cells of
          [] \<Rightarrow> False
        | cell # _ \<Rightarrow> (case snd cell of Integer n \<Rightarrow> True | Bytes b \<Rightarrow> False)) columns"

section \<open>The script: \<^verbatim>\<open>main\<close>\<close>

text \<open>The instance's tables and what the script has printed.\<close>

record world =
  stdout :: "string list"
  tabs :: tables

definition column_family_id :: string where
  "column_family_id = ''word_attributes''"

text \<open>
  Lines 88 to 100: the table is created, with the column family under the rule that keeps the
  2 most recent versions, only when \<^verbatim>\<open>table.exists()\<close> is false. The two methods of the table
  object are passed along as \<open>table_exists\<close> and \<open>table_create\<close>.
\<close>

definition main_create_with :: "(tables \<Rightarrow> string \<Rightarrow> bool) \<Rightarrow>
    (tables \<Rightarrow> string \<Rightarrow> (string \<times> gc_rule) list \<Rightarrow> error + tables) \<Rightarrow>
    string \<Rightarrow> world \<Rightarrow> error + world" where
  "main_create_with table_exists table_create table_id w =
     (let w = w\<lparr>stdout := stdout w @ [''Creating the '' @ table_id @ '' table.'']\<rparr>;
          w = w\<lparr>stdout := stdout w @ [''Creating column family with Max Version GC rule...'']\<rparr>;
          max_versions_rule = MaxVersions 2;
          column_families = [(column_family_id, max_versions_rule)]
      in if \<not> table_exists (tabs w) table_id
         then (case table_create (tabs w) table_id column_families of
                 Inl e \<Rightarrow> Inl e
               | Inr ts \<Rightarrow> Inr (w\<lparr>tabs := ts\<rparr>))
         else Inr (w\<lparr>stdout := stdout w @ [''Table '' @ table_id @ '' already exists.'']\<rparr>))"

text \<open>The same lines on the store engine.\<close>

definition main_create :: "string \<Rightarrow> world \<Rightarrow> error + world" where
  "main_create = main_create_with exists create"

text \<open>
  Lines 104 to 113: one row is read through the filter and printed when the result is truthy
  (a row object is; \<^verbatim>\<open>None\<close> is not). The result is what this part prints.
\<close>

definition main_read_single :: "table \<Rightarrow> error + string list" where
  "main_read_single t =
     (let row_filter = LimitVersionsPerColumn 1;
          printed = [''Getting a single greeting by row key.''];
          key = ''internet'';
          r = readRow t key (Some row_filter)
      in case r of
           None \<Rightarrow> Inr printed
         | Some r \<Rightarrow>
             (case print_row r column_family_id of
                Inl e \<Rightarrow> Inl e
              | Inr line \<Rightarrow> Inr (printed @ [line])))"

text \<open>Lines 115 to 119: the range scan, each row printed in turn.\<close>

fun print_rows :: "row list \<Rightarrow> string list \<Rightarrow> error + string list" where
  "print_rows [] printed = Inr printed"
| "print_rows (r # rs) printed =
     (case print_row r column_family_id of
        Inl e \<Rightarrow> Inl e
      | Inr line \<Rightarrow> print_rows rs (printed @ [line]))"

definition main_scan :: "table \<Rightarrow> error + string list" where
  "main_scan t =
     (let row_filter = LimitVersionsPerColumn 1;
          printed = [''Scanning for all greetings:''];
          partial_rows = readRange t ''inte'' ''internet'' (Some row_filter)
      in print_rows partial_rows printed)"

text \<open>Lines 121 and 122.\<close>

definition main_delete :: "string \<Rightarrow> world \<Rightarrow> error + world" where
  "main_delete table_id w =
     (let w = w\<lparr>stdout := stdout w @ [''Deleting the '' @ table_id @ '' table.'']\<rparr>
      in case delete (tabs w) table_id of
           Inl e \<Rightarrow> Inl e
         | Inr ts \<Rightarrow> Inr (w\<lparr>tabs := ts\<rparr>))"

text \<open>
  The whole script, given the lines of the word file. After the first part the table exists,
  so the \<open>NotFoundError\<close> branch of the lookup is never taken.
\<close>

definition main :: "string \<Rightarrow> (string \<times> timestamp) list \<Rightarrow> world \<Rightarrow> error + world" where
  "main table_id lines w =
     (case main_create table_id w of
        Inl e \<Rightarrow> Inl e
      | Inr w \<Rightarrow>
          (case tabs w table_id of
             None \<Rightarrow> Inl NotFoundError
           | Some t \<Rightarrow>
               (case write_words mutate_rows_call t lines column_family_id of
                  (returned, printed, t) \<Rightarrow>
                    (let w = w\<lparr>stdout := stdout w @ printed, tabs := (tabs w)(table_id \<mapsto> t)\<rparr>
                     in case main_read_single t of
                          Inl e \<Rightarrow> Inl e
                        | Inr printed \<Rightarrow>
                            (let w = w\<lparr>stdout := stdout w @ printed\<rparr>
                             in case main_scan t of
                                  Inl e \<Rightarrow> Inl e
                                | Inr printed \<Rightarrow>
                                    main_delete table_id (w\<lparr>stdout := stdout w @ printed\<rparr>))))))"

section \<open>Properties of the word writer\<close>

subsection \<open>The loop against the recording table\<close>

lemma write_loop_all_rows:
  "concat (tbl (write_loop B record_call fam lines st)) @ rows (write_loop B record_call fam lines st)
     = concat (tbl st) @ rows st @ word_rows fam (prev_word st) lines"
proof (induction lines arbitrary: st)
  case Nil
  show ?case by simp
next
  case (Cons l lines)
  obtain line tstamp where l: "l = (line, tstamp)" by (cases l)
  let ?st1 = "st\<lparr>prev_word := rstrip line, rows := rows st @ [word_row fam (prev_word st) line tstamp]\<rparr>"
  let ?st2 = "if length (rows ?st1) \<ge> B then (send_batch record_call ?st1)\<lparr>rows := []\<rparr> else ?st1"
  have step: "write_loop B record_call fam (l # lines) st = write_loop B record_call fam lines ?st2"
    unfolding l by (simp add: Let_def)
  have inv: "concat (tbl ?st2) @ rows ?st2 = concat (tbl st) @ rows st @ [word_row fam (prev_word st) line tstamp]"
    by (simp add: send_batch_def record_call_def)
  have pw: "prev_word ?st2 = rstrip line"
    by (simp add: send_batch_def)
  have "concat (tbl (write_loop B record_call fam lines ?st2)) @ rows (write_loop B record_call fam lines ?st2)
     = concat (tbl ?st2) @ rows ?st2 @ word_rows fam (prev_word ?st2) lines"
    by (rule Cons.IH)
  also have "\<dots> = (concat (tbl ?st2) @ rows ?st2) @ word_rows fam (rstrip line) lines"
    unfolding pw by simp
  also have "\<dots> = concat (tbl st) @ rows st @ word_rows fam (prev_word st) (l # lines)"
    unfolding inv l by simp
  finally show ?case unfolding step .
qed

lemma write_loop_sizes:
  assumes "0 < B" and "length (rows st) < B"
  shows "map length (tbl (write_loop B record_call fam lines st))
           = map length (tbl st) @ replicate ((length (rows st) + length lines) div B) B
         \<and> length (rows (write_loop B record_call fam lines st)) = (length (rows st) + length lines) mod B"
  using assms
proof (induction lines arbitrary: st)
  case Nil
  then show ?case by simp
next
  case (Cons l lines)
  obtain line tstamp where l: "l = (line, tstamp)" by (cases l)
  show ?case
  proof (cases "Suc (length (rows st)) \<ge> B")
    case True
    with Cons.prems have eq: "Suc (length (rows st)) = B" by simp
    let ?st = "(send_batch record_call (st\<lparr>prev_word := rstrip line, rows := rows st @ [word_row fam (prev_word st) line tstamp]\<rparr>))\<lparr>rows := []\<rparr>"
    have step: "write_loop B record_call fam (l # lines) st = write_loop B record_call fam lines ?st"
      unfolding l using True by (simp add: Let_def)
    have r: "rows ?st = []" by simp
    have t: "map length (tbl ?st) = map length (tbl st) @ [B]"
      using eq by (simp add: send_batch_def record_call_def)
    have ih: "map length (tbl (write_loop B record_call fam lines ?st))
           = map length (tbl ?st) @ replicate ((length (rows ?st) + length lines) div B) B
         \<and> length (rows (write_loop B record_call fam lines ?st)) = (length (rows ?st) + length lines) mod B"
      using Cons.IH[of ?st] Cons.prems(1) by simp
    have a1: "(length (rows st) + length (l # lines)) div B = Suc (length lines div B)"
      using eq Cons.prems(1) by (metis add_Suc_right add_Suc div_add_self1 length_Cons less_numeral_extra(3) plus_1_eq_Suc add.commute)
    have a2: "(length (rows st) + length (l # lines)) mod B = length lines mod B"
      using eq by (metis add_Suc_right add_Suc length_Cons mod_add_self1)
    show ?thesis
      unfolding step using ih by (simp only: r t a1 a2) (simp add: replicate_append_same)
  next
    case False
    let ?st = "st\<lparr>prev_word := rstrip line, rows := rows st @ [word_row fam (prev_word st) line tstamp]\<rparr>"
    have step: "write_loop B record_call fam (l # lines) st = write_loop B record_call fam lines ?st"
      unfolding l using False by (simp add: Let_def)
    have "length (rows ?st) < B" using False by simp
    from Cons.IH[OF Cons.prems(1) this] show ?thesis unfolding step by simp
  qed
qed

lemma write_loop_replay:
  "tbl (write_loop B mutate fam lines \<lparr>rows = rs, prev_word = p, out = ou, tbl = foldl mutate t log\<rparr>)
     = foldl mutate t (tbl (write_loop B record_call fam lines \<lparr>rows = rs, prev_word = p, out = ou', tbl = log\<rparr>))"
proof (induction lines arbitrary: rs p ou ou' log)
  case Nil
  show ?case by simp
next
  case (Cons l lines)
  obtain line tstamp where l: "l = (line, tstamp)" by (cases l)
  let ?rs = "rs @ [word_row fam p line tstamp]"
  show ?case
  proof (cases "length ?rs \<ge> B")
    case True
    have a: "write_loop B mutate fam (l # lines) \<lparr>rows = rs, prev_word = p, out = ou, tbl = foldl mutate t log\<rparr>
        = write_loop B mutate fam lines \<lparr>rows = [], prev_word = rstrip line, out = ou @ [''Writing mutations batch...''],
             tbl = foldl mutate t (log @ [?rs])\<rparr>"
      unfolding l using True by (simp add: Let_def send_batch_def)
    have b: "write_loop B record_call fam (l # lines) \<lparr>rows = rs, prev_word = p, out = ou', tbl = log\<rparr>
        = write_loop B record_call fam lines \<lparr>rows = [], prev_word = rstrip line, out = ou' @ [''Writing mutations batch...''],
             tbl = log @ [?rs]\<rparr>"
      unfolding l using True by (simp add: Let_def send_batch_def record_call_def)
    show ?thesis unfolding a b by (rule Cons.IH)
  next
    case False
    have a: "write_loop B mutate fam (l # lines) \<lparr>rows = rs, prev_word = p, out = ou, tbl = foldl mutate t log\<rparr>
        = write_loop B mutate fam lines \<lparr>rows = ?rs, prev_word = rstrip line, out = ou, tbl = foldl mutate t log\<rparr>"
      unfolding l using False by (simp add: Let_def)
    have b: "write_loop B record_call fam (l # lines) \<lparr>rows = rs, prev_word = p, out = ou', tbl = log\<rparr>
        = write_loop B record_call fam lines \<lparr>rows = ?rs, prev_word = rstrip line, out = ou', tbl = log\<rparr>"
      unfolding l using False by (simp add: Let_def)
    show ?thesis unfolding a b by (rule Cons.IH)
  qed
qed

lemma write_loop_rows_same:
  "rows (write_loop B mutate fam lines \<lparr>rows = rs, prev_word = p, out = ou, tbl = t\<rparr>)
     = rows (write_loop B record_call fam lines \<lparr>rows = rs, prev_word = p, out = ou', tbl = log\<rparr>)"
proof (induction lines arbitrary: rs p ou ou' log t)
  case Nil
  show ?case by simp
next
  case (Cons l lines)
  obtain line tstamp where l: "l = (line, tstamp)" by (cases l)
  let ?rs = "rs @ [word_row fam p line tstamp]"
  show ?case
  proof (cases "length ?rs \<ge> B")
    case True
    have a: "write_loop B mutate fam (l # lines) \<lparr>rows = rs, prev_word = p, out = ou, tbl = t\<rparr>
        = write_loop B mutate fam lines \<lparr>rows = [], prev_word = rstrip line, out = ou @ [''Writing mutations batch...''],
             tbl = mutate t ?rs\<rparr>"
      unfolding l using True by (simp add: Let_def send_batch_def)
    have b: "write_loop B record_call fam (l # lines) \<lparr>rows = rs, prev_word = p, out = ou', tbl = log\<rparr>
        = write_loop B record_call fam lines \<lparr>rows = [], prev_word = rstrip line, out = ou' @ [''Writing mutations batch...''],
             tbl = record_call log ?rs\<rparr>"
      unfolding l using True by (simp add: Let_def send_batch_def)
    show ?thesis unfolding a b by (rule Cons.IH)
  next
    case False
    have a: "write_loop B mutate fam (l # lines) \<lparr>rows = rs, prev_word = p, out = ou, tbl = t\<rparr>
        = write_loop B mutate fam lines \<lparr>rows = ?rs, prev_word = rstrip line, out = ou, tbl = t\<rparr>"
      unfolding l using False by (simp add: Let_def)
    have b: "write_loop B record_call fam (l # lines) \<lparr>rows = rs, prev_word = p, out = ou', tbl = log\<rparr>
        = write_loop B record_call fam lines \<lparr>rows = ?rs, prev_word = rstrip line, out = ou', tbl = log\<rparr>"
      unfolding l using False by (simp add: Let_def)
    show ?thesis unfolding a b by (rule Cons.IH)
  qed
qed

lemma write_words_replay:
  "snd (snd (write_words_sized B mutate t lines fam)) = foldl mutate t (sent_batches B lines fam)"
proof -
  let ?o = "[''Writing words....'']"
  let ?m = "write_loop B mutate fam lines \<lparr>rows = [], prev_word = [], out = ?o, tbl = t\<rparr>"
  let ?r = "write_loop B record_call fam lines \<lparr>rows = [], prev_word = [], out = ?o, tbl = []\<rparr>"
  have t: "tbl ?m = foldl mutate t (tbl ?r)"
    using write_loop_replay[of B mutate fam lines "[]" "[]" ?o t "[]" ?o] by simp
  have r: "rows ?m = rows ?r"
    by (rule write_loop_rows_same)
  show ?thesis
    by (simp add: write_words_sized_def sent_batches_def Let_def send_batch_def record_call_def t r)
qed

lemma sent_batches_concat:
  "concat (sent_batches B lines fam) = word_rows fam [] lines"
proof -
  let ?r = "write_loop B record_call fam lines \<lparr>rows = [], prev_word = [], out = [''Writing words....''], tbl = []\<rparr>"
  have "concat (tbl ?r) @ rows ?r = word_rows fam [] lines"
    using write_loop_all_rows[of B fam lines "\<lparr>rows = [], prev_word = [], out = [''Writing words....''], tbl = []\<rparr>"] by simp
  then show ?thesis
    by (cases "rows ?r = []")
       (simp_all add: sent_batches_def write_words_sized_def Let_def send_batch_def record_call_def)
qed

lemma sent_batches_sizes:
  assumes "0 < B"
  shows "map length (sent_batches B lines fam)
     = replicate (length lines div B) B @ (if length lines mod B = 0 then [] else [length lines mod B])"
proof -
  let ?s = "\<lparr>rows = [], prev_word = [], out = [''Writing words....''], tbl = ([] :: direct_row list list)\<rparr>"
  let ?r = "write_loop B record_call fam lines ?s"
  have "map length (tbl ?r) = map length (tbl ?s) @ replicate ((length (rows ?s) + length lines) div B) B
         \<and> length (rows ?r) = (length (rows ?s) + length lines) mod B"
    by (rule write_loop_sizes) (use assms in simp_all)
  then have a: "map length (tbl ?r) = replicate (length lines div B) B"
    and b: "length (rows ?r) = length lines mod B" by simp_all
  show ?thesis
  proof (cases "rows ?r = []")
    case True
    with b have "length lines mod B = 0" by simp
    with True a show ?thesis
      by (simp add: sent_batches_def write_words_sized_def Let_def)
  next
    case False
    then have "length (rows ?r) \<noteq> 0" by simp
    with b have "length lines mod B \<noteq> 0" by metis
    with False a b show ?thesis
      by (simp add: sent_batches_def write_words_sized_def Let_def send_batch_def record_call_def)
  qed
qed

subsection \<open>Row keys written to the store\<close>

lemma modify_keys: "fst ` set (modify d f k xs) = insert k (fst ` set xs)"
  by (induction xs) (auto split: if_splits simp: rev_image_eqI)

lemma put_keys: "fst ` set (put cs rk fam q ts v) = insert rk (fst ` set cs)"
  by (simp add: put_def modify_keys)

lemma foldl_put_keys:
  "fst ` set (foldl (\<lambda>cs (fam, col, v, ts). put cs rk fam col ts v) cs ms)
     = (if ms = [] then {} else {rk}) \<union> fst ` set cs"
proof (induction ms arbitrary: cs)
  case Nil
  show ?case by simp
next
  case (Cons m ms)
  obtain fam col v ts where m: "m = (fam, col, v, ts)" by (cases m)
  show ?case unfolding m by (simp add: Cons.IH put_keys)
qed

lemma apply_row_families: "families (snd (apply_row t r)) = families t"
  by (simp add: apply_row_def)

lemma apply_row_keys:
  "families t \<noteq> [] \<Longrightarrow>
   fst ` set (store (snd (apply_row t r)))
     = (if dr_mutations r = [] then {} else {dr_row_key r}) \<union> fst ` set (store t)"
  by (simp add: apply_row_def foldl_put_keys)

lemma mutate_rows_families: "families (snd (mutate_rows t rs)) = families t"
proof (induction rs arbitrary: t)
  case Nil
  show ?case by simp
next
  case (Cons r rs)
  have "families (snd (mutate_rows (snd (apply_row t r)) rs)) = families (snd (apply_row t r))"
    by (rule Cons.IH)
  then show ?case by (simp add: split_beta apply_row_families)
qed

lemma mutate_rows_keys:
  "families t \<noteq> [] \<Longrightarrow>
   fst ` set (store (snd (mutate_rows t rs)))
     = dr_row_key ` {r \<in> set rs. dr_mutations r \<noteq> []} \<union> fst ` set (store t)"
proof (induction rs arbitrary: t)
  case Nil
  show ?case by simp
next
  case (Cons r rs)
  let ?t = "snd (apply_row t r)"
  have f: "families ?t \<noteq> []" using Cons.prems by (simp add: apply_row_families)
  have "fst ` set (store (snd (mutate_rows ?t rs)))
     = dr_row_key ` {r \<in> set rs. dr_mutations r \<noteq> []} \<union> fst ` set (store ?t)"
    by (rule Cons.IH[OF f])
  then show ?case
    using apply_row_keys[OF Cons.prems, of r] by (auto simp: split_beta)
qed

lemma foldl_mutate_rows_call:
  "families t \<noteq> [] \<Longrightarrow>
   families (foldl mutate_rows_call t bs) = families t \<and>
   fst ` set (store (foldl mutate_rows_call t bs))
     = dr_row_key ` {r \<in> set (concat bs). dr_mutations r \<noteq> []} \<union> fst ` set (store t)"
proof (induction bs arbitrary: t)
  case Nil
  show ?case by simp
next
  case (Cons b bs)
  let ?t = "mutate_rows_call t b"
  have f: "families ?t = families t" by (simp add: mutate_rows_call_def mutate_rows_families)
  then have ne: "families ?t \<noteq> []" using Cons.prems by simp
  have k: "fst ` set (store ?t) = dr_row_key ` {r \<in> set b. dr_mutations r \<noteq> []} \<union> fst ` set (store t)"
    using mutate_rows_keys[OF Cons.prems] by (simp add: mutate_rows_call_def)
  from Cons.IH[OF ne] show ?case unfolding foldl_Cons f k by auto
qed

lemma word_row_key: "dr_row_key (word_row fam p line ts) = rstrip line"
  by (simp add: word_row_def direct_row_def set_cell_def Let_def)

lemma word_row_mutations: "dr_mutations (word_row fam p line ts) \<noteq> []"
  by (simp add: word_row_def direct_row_def set_cell_def Let_def)

lemma word_rows_keys:
  "dr_row_key ` {r \<in> set (word_rows fam p lines). dr_mutations r \<noteq> []} = (\<lambda>l. rstrip (fst l)) ` set lines"
proof (induction lines arbitrary: p)
  case Nil
  show ?case by simp
next
  case (Cons l lines)
  obtain line ts where l: "l = (line, ts)" by (cases l)
  have "{r \<in> set (word_rows fam p (l # lines)). dr_mutations r \<noteq> []}
      = insert (word_row fam p line ts) {r \<in> set (word_rows fam (rstrip line) lines). dr_mutations r \<noteq> []}"
    unfolding l using word_row_mutations[of fam p line ts] by auto
  then show ?case using Cons.IH[of "rstrip line"] by (simp add: l word_row_key)
qed

lemma word_rows_length: "length (word_rows fam p lines) = length lines"
  by (induction lines arbitrary: p) auto

lemma write_loop_pending:
  assumes "0 < B"
  shows "length (rows (write_loop B mutate fam lines \<lparr>rows = [], prev_word = [], out = ou, tbl = t\<rparr>))
           = length lines mod B"
proof -
  let ?s = "\<lparr>rows = [], prev_word = [], out = ou, tbl = ([] :: direct_row list list)\<rparr>"
  have "rows (write_loop B mutate fam lines \<lparr>rows = [], prev_word = [], out = ou, tbl = t\<rparr>)
      = rows (write_loop B record_call fam lines ?s)"
    by (rule write_loop_rows_same)
  moreover have "length (rows (write_loop B record_call fam lines ?s)) = (length (rows ?s) + length lines) mod B"
    using write_loop_sizes[of B ?s fam lines] assms by simp
  ultimately show ?thesis by simp
qed

lemma chunk_sizes_bounded:
  assumes "0 < B"
    and "map length xs = replicate k B @ (if m mod B = 0 then [] else [m mod B])"
  shows "list_all (\<lambda>c. c \<noteq> [] \<and> length c \<le> B) xs"
proof -
  have "list_all (\<lambda>n. 0 < n \<and> n \<le> B) (map length xs)"
    unfolding assms(2) using assms(1) by (auto simp: list_all_iff less_imp_le)
  then show ?thesis by (simp add: list_all_iff)
qed

text \<open>
  C1. For every positive batch size \<open>B\<close> and every sequence of lines, the row mutations that
  \<^verbatim>\<open>_write_words\<close> hands to \<^verbatim>\<open>mutate_rows\<close> are, concatenated, exactly the row mutations
  of the lines in input order, each once; the chunks are \<open>length lines div B\<close> chunks of size
  \<open>B\<close> followed by the non-empty remainder, so each chunk is non-empty and at most \<open>B\<close> long;
  after any number of lines fewer than \<open>B\<close> rows are pending (a chunk is sent as soon as it
  is full); the table ends as the chunks applied in order; and on a store that accepts writes
  the rows present afterwards are those present before and the row of every word.
\<close>

theorem write_words_batching:
  assumes "0 < B"
  shows "concat (sent_batches B lines fam) = word_rows fam [] lines
       \<and> map length (sent_batches B lines fam)
           = replicate (length lines div B) B @ (if length lines mod B = 0 then [] else [length lines mod B])
       \<and> list_all (\<lambda>c. c \<noteq> [] \<and> length c \<le> B) (sent_batches B lines fam)
       \<and> length (rows (write_loop B mutate fam lines \<lparr>rows = [], prev_word = [], out = ou, tbl = t\<rparr>))
           = length lines mod B
       \<and> snd (snd (write_words_sized B mutate t lines fam)) = foldl mutate t (sent_batches B lines fam)
       \<and> (families tb \<noteq> [] \<longrightarrow>
            fst ` set (store (snd (snd (write_words_sized B mutate_rows_call tb lines fam))))
              = fst ` set (store tb) \<union> (\<lambda>l. rstrip (fst l)) ` set lines)"
proof -
  have sizes: "map length (sent_batches B lines fam)
           = replicate (length lines div B) B @ (if length lines mod B = 0 then [] else [length lines mod B])"
    by (rule sent_batches_sizes[OF assms])
  have keys: "fst ` set (store (snd (snd (write_words_sized B mutate_rows_call tb lines fam))))
              = fst ` set (store tb) \<union> (\<lambda>l. rstrip (fst l)) ` set lines" if ne: "families tb \<noteq> []"
  proof -
    have "fst ` set (store (foldl mutate_rows_call tb (sent_batches B lines fam)))
        = dr_row_key ` {r \<in> set (concat (sent_batches B lines fam)). dr_mutations r \<noteq> []} \<union> fst ` set (store tb)"
      using foldl_mutate_rows_call[OF ne] by simp
    then show ?thesis
      by (simp add: write_words_replay sent_batches_concat word_rows_keys Un_commute)
  qed
  show ?thesis
    using sizes chunk_sizes_bounded[OF assms sizes] keys
    by (simp add: sent_batches_concat write_loop_pending[OF assms] write_words_replay)
qed

text \<open>
  C1 at batch size 2 and a file of 5 words, on a table with one column family: 3 chunks of
  sizes 2, 2, 1, and the 5 rows are present afterwards.
\<close>

theorem write_words_batching_witness:
  "0 < (2::nat)
   \<and> map length (sent_batches 2 [(''a'', 1), (''b'', 2), (''c'', 3), (''d'', 4), (''e'', 5)] ''F'') = [2, 2, 1]
   \<and> fst ` set (store (snd (snd (write_words_sized 2 mutate_rows_call
         \<lparr>families = [(''F'', MaxVersions 2)], store = []\<rparr>
         [(''a'', 1), (''b'', 2), (''c'', 3), (''d'', 4), (''e'', 5)] ''F''))))
       = {''a'', ''b'', ''c'', ''d'', ''e''}"
proof -
  let ?L = "[(''a'', 1), (''b'', 2), (''c'', 3), (''d'', 4), (''e'', 5)] :: (string \<times> timestamp) list"
  let ?tb = "\<lparr>families = [(''F'', MaxVersions 2)], store = []\<rparr>"
  have h: "0 < (2::nat)" by simp
  note th = write_words_batching[OF h, where lines = ?L and fam = "''F''" and tb = ?tb
      and mutate = record_call and t = "[]" and ou = "[]"]
  have sizes: "map length (sent_batches 2 ?L ''F'') = [2, 2, 1]"
    using th[THEN conjunct2, THEN conjunct1] by simp
  have r: "rstrip ''a'' = ''a''" "rstrip ''b'' = ''b''" "rstrip ''c'' = ''c''" "rstrip ''d'' = ''d''" "rstrip ''e'' = ''e''"
    by (simp_all add: rstrip_def isspace_def continuation_def)
  have f: "families ?tb \<noteq> []" by simp
  have keys: "fst ` set (store (snd (snd (write_words_sized 2 mutate_rows_call ?tb ?L ''F''))))
       = {''a'', ''b'', ''c'', ''d'', ''e''}"
    using th[THEN conjunct2, THEN conjunct2, THEN conjunct2, THEN conjunct2, THEN conjunct2, THEN mp, OF f]
    by (simp add: r insert_commute)
  show ?thesis using h sizes keys by (intro conjI)
qed

text \<open>
  C2, as stated, fails: on a file of one word \<^verbatim>\<open>_write_words\<close> does not return the count 1.
\<close>

theorem write_words_returns_count_counterexample:
  "fst (write_words record_call [] [(''internet'', 1)] ''word_attributes'') \<noteq> PyInt 1"
  by (simp add: write_words_def write_words_sized_def Let_def)

text \<open>
  C2, amended. \<^verbatim>\<open>_write_words\<close> has no \<^verbatim>\<open>return\<close> statement: for every input it evaluates to
  \<^verbatim>\<open>None\<close>. The number of row mutations it submits to the table is the number of lines.
\<close>

theorem write_words_returns_none:
  "fst (write_words mutate t lines fam) = PyNone
   \<and> length (concat (sent_batches MUTATION_BATCHSIZE lines fam)) = length lines"
  by (simp add: write_words_def write_words_sized_def Let_def sent_batches_concat word_rows_length)

section \<open>Properties of the row printer\<close>

lemma print_row_loop_dispatch_unused:
  "print_row_loop cols values = print_row_loop_no_dispatch cols values"
proof (induction cols arbitrary: "values")
  case Nil
  show ?case by simp
next
  case (Cons c cols)
  obtain column column_cells where c: "c = (column, column_cells)" by (cases c)
  show ?case
  proof (cases column_cells)
    case Nil
    then show ?thesis unfolding c by simp
  next
    case (Cons cell older)
    show ?thesis
    proof (cases "snd cell")
      case (Bytes b)
      then show ?thesis unfolding c Cons
        by (cases "decode b") (simp_all add: Cons.IH)
    next
      case (Integer n)
      then show ?thesis unfolding c Cons by simp
    qed
  qed
qed

lemma print_row_loop_ok_no_integer:
  "print_row_loop cols values = Inr res \<Longrightarrow> \<not> prints_integer_cell cols"
proof (induction cols arbitrary: "values")
  case Nil
  show ?case by (simp add: prints_integer_cell_def)
next
  case (Cons c cols)
  obtain column column_cells where c: "c = (column, column_cells)" by (cases c)
  from Cons.prems obtain cell older where cc: "column_cells = cell # older"
    unfolding c by (cases column_cells) simp_all
  from Cons.prems obtain b where b: "snd cell = Bytes b"
    unfolding c cc by (cases "snd cell") simp_all
  from Cons.prems obtain s where "decode b = Inr s"
    and rest: "print_row_loop cols (values @ [bytes_repr column @ '':'' @ s]) = Inr res"
    unfolding c cc by (cases "decode b") (simp_all add: b)
  from Cons.IH[OF rest] show ?case
    unfolding c cc by (simp add: prints_integer_cell_def b)
qed

lemma print_row_loop_append:
  "print_row_loop pre values = Inr vs \<Longrightarrow>
   print_row_loop (pre @ rest) values = print_row_loop rest vs"
proof (induction pre arbitrary: "values")
  case Nil
  then show ?case by simp
next
  case (Cons c pre)
  obtain column column_cells where c: "c = (column, column_cells)" by (cases c)
  from Cons.prems obtain cell older where cc: "column_cells = cell # older"
    unfolding c by (cases column_cells) simp_all
  from Cons.prems obtain b where b: "snd cell = Bytes b"
    unfolding c cc by (cases "snd cell") simp_all
  from Cons.prems obtain s where d: "decode b = Inr s"
    and rest: "print_row_loop pre (values @ [bytes_repr column @ '':'' @ s]) = Inr vs"
    unfolding c cc by (cases "decode b") (simp_all add: b)
  from Cons.IH[OF rest] show ?case
    unfolding c cc by (simp add: b d)
qed

lemma print_row_loop_first_cells:
  "print_row_loop (map (\<lambda>(column, column_cells). (column, take (Suc 0) column_cells)) cols) acc
     = print_row_loop cols acc"
proof (induction cols arbitrary: acc)
  case Nil
  show ?case by simp
next
  case (Cons c cols)
  obtain column column_cells where c: "c = (column, column_cells)" by (cases c)
  show ?case
  proof (cases column_cells)
    case Nil
    then show ?thesis unfolding c by simp
  next
    case (Cons cell older)
    show ?thesis unfolding c Cons
      by (simp add: Cons.IH split: sum.splits cell_value.splits)
  qed
qed

text \<open>
  C10. In \<^verbatim>\<open>_print_row\<close> the value computed by the integer / byte-string dispatch is never
  used: the loop behaves, in what it prints and in what it raises, exactly as the loop without
  the dispatch, which only calls \<^verbatim>\<open>decode()\<close> on the raw cell value. So the integer branch is
  dead: a row with an integer-valued cell, the cell being the one the dispatch inspects
  (\<^verbatim>\<open>cells[column_family_id][column][0]\<close>, line 74), makes the function raise, and when the
  columns before it print, what it raises is the \<^verbatim>\<open>AttributeError\<close> of the missing \<^verbatim>\<open>decode\<close>.
  The function reads no other cell: its outcome is that of the row cut down to the first cell
  of each column of the family, which is the shape of every row that \<^verbatim>\<open>main\<close> passes to it,
  both reads going through \<^verbatim>\<open>CellsColumnLimitFilter(1)\<close> (lines 111 and 116).
\<close>

theorem print_row_integer_cell_raises:
  "print_row_loop cols acc = print_row_loop_no_dispatch cols acc
   \<and> (map_of (cells r) fam = Some cols \<and> prints_integer_cell cols \<longrightarrow>
        (\<exists>e. print_row r fam = Inl e))
   \<and> (print_row_loop pre acc = Inr vs \<longrightarrow>
        print_row_loop (pre @ (column, (ts, Integer n) # older) # post) acc = Inl AttributeError)
   \<and> (map_of (cells r) fam = Some cols \<longrightarrow>
        print_row r fam
          = print_row \<lparr>row_key = row_key r,
               cells = [(fam, map (\<lambda>(column, column_cells). (column, take 1 column_cells)) cols)]\<rparr> fam)"
proof -
  have b: "\<exists>e. print_row r fam = Inl e" if "map_of (cells r) fam = Some cols" "prints_integer_cell cols"
  proof (cases "print_row_loop cols []")
    case (Inl e)
    then show ?thesis using that(1) by (simp add: print_row_def)
  next
    case (Inr res)
    from print_row_loop_ok_no_integer[OF this] that(2) show ?thesis by simp
  qed
  have c: "print_row_loop (pre @ (column, (ts, Integer n) # older) # post) acc = Inl AttributeError"
    if "print_row_loop pre acc = Inr vs"
    using print_row_loop_append[OF that] by simp
  have d: "print_row r fam
          = print_row \<lparr>row_key = row_key r,
               cells = [(fam, map (\<lambda>(column, column_cells). (column, take 1 column_cells)) cols)]\<rparr> fam"
    if "map_of (cells r) fam = Some cols"
    using that by (simp add: print_row_def print_row_loop_first_cells split: sum.splits)
  show ?thesis using print_row_loop_dispatch_unused b c d by blast
qed

text \<open>
  C10 at a row whose only cell holds the integer 8, and at a family whose second column
  holds it.
\<close>

theorem print_row_integer_cell_raises_witness:
  "map_of (cells \<lparr>row_key = ''internet'', cells = [(''word_attributes'', [(''att_letters'', [(1, Integer 8)])])]\<rparr>)
       ''word_attributes'' = Some [(''att_letters'', [(1, Integer 8)])]
   \<and> prints_integer_cell [(''att_letters'', [(1, Integer 8)])]
   \<and> (\<exists>e. print_row \<lparr>row_key = ''internet'', cells = [(''word_attributes'', [(''att_letters'', [(1, Integer 8)])])]\<rparr>
          ''word_attributes'' = Inl e)
   \<and> print_row_loop [(''a'', [(1, Bytes ''x'')])] [] = Inr [bytes_repr ''a'' @ '':x'']
   \<and> print_row_loop ([(''a'', [(1, Bytes ''x'')])] @ (''att_letters'', (1, Integer 8) # []) # []) []
       = Inl AttributeError
   \<and> print_row \<lparr>row_key = ''internet'', cells = [(''word_attributes'', [(''att_letters'', [(1, Integer 8)])])]\<rparr>
        ''word_attributes''
      = print_row \<lparr>row_key = ''internet'',
           cells = [(''word_attributes'', [(''att_letters'', take 1 [(1, Integer 8)])])]\<rparr>
        ''word_attributes''"
proof -
  let ?cols = "[(''att_letters'', [(1, Integer 8)])] :: (bytes \<times> versions) list"
  let ?r = "\<lparr>row_key = ''internet'', cells = [(''word_attributes'', ?cols)]\<rparr>"
  note th = print_row_integer_cell_raises[where r = ?r and fam = "''word_attributes''" and cols = ?cols
      and pre = "[(''a'', [(1, Bytes ''x'')])]" and acc = "[]"
      and vs = "[bytes_repr ''a'' @ '':x'']" and column = "''att_letters''" and ts = 1 and n = 8
      and older = "[]" and post = "[]"]
  have h1: "map_of (cells ?r) ''word_attributes'' = Some ?cols" by simp
  have h2: "prints_integer_cell ?cols" by (simp add: prints_integer_cell_def)
  have h3: "print_row_loop [(''a'', [(1, Bytes ''x'')])] [] = Inr [bytes_repr ''a'' @ '':x'']"
    by (simp add: decode_def within_def)
  have c1: "\<exists>e. print_row ?r ''word_attributes'' = Inl e"
    using th[THEN conjunct2, THEN conjunct1, THEN mp, OF conjI[OF h1 h2]] .
  have c2: "print_row_loop ([(''a'', [(1, Bytes ''x'')])] @ (''att_letters'', (1, Integer 8) # []) # []) []
       = Inl AttributeError"
    using th[THEN conjunct2, THEN conjunct2, THEN conjunct1, THEN mp, OF h3] .
  have c3: "print_row ?r ''word_attributes''
      = print_row \<lparr>row_key = ''internet'',
           cells = [(''word_attributes'', [(''att_letters'', take 1 [(1, Integer 8)])])]\<rparr>
        ''word_attributes''"
    using th[THEN conjunct2, THEN conjunct2, THEN conjunct2, THEN mp, OF h1] by simp
  show ?thesis using h1 h2 h3 c1 c2 c3 by (intro conjI)
qed

section \<open>Properties of the store engine\<close>

subsection \<open>Ordered association lists\<close>

lemma modify_sorted:
  "sorted_wrt (<) (map fst xs) \<Longrightarrow> sorted_wrt (<) (map fst (modify d f k xs))"
proof (induction xs)
  case Nil
  show ?case by simp
next
  case (Cons x xs)
  obtain k' v where x: "x = (k', v)" by (cases x)
  show ?case
  proof (cases "k < k'")
    case True
    with Cons.prems show ?thesis unfolding x by auto
  next
    case False
    show ?thesis
    proof (cases "k = k'")
      case True
      with Cons.prems show ?thesis unfolding x by simp
    next
      case ne: False
      with False have lt: "k' < k" by simp
      have "\<forall>y \<in> fst ` set (modify d f k xs). k' < y"
        using Cons.prems lt unfolding x modify_keys by auto
      with Cons False ne show ?thesis unfolding x by simp
    qed
  qed
qed

lemma modify_lookup:
  "sorted_wrt (<) (map fst xs) \<Longrightarrow>
   map_of (modify d f k xs) k' =
     (if k' = k then Some (f (case map_of xs k of None \<Rightarrow> d | Some v \<Rightarrow> v)) else map_of xs k')"
proof (induction xs)
  case Nil
  show ?case by simp
next
  case (Cons x xs)
  obtain a v where x: "x = (a, v)" by (cases x)
  have notin: "k < a \<Longrightarrow> map_of xs k = None"
  proof -
    assume "k < a"
    then have "k \<notin> fst ` set xs" using Cons.prems unfolding x by auto
    then show ?thesis by (simp add: map_of_eq_None_iff)
  qed
  show ?case using Cons notin unfolding x by (auto)
qed

lemma modify_all:
  "list_all (\<lambda>(k, v). P v) xs \<Longrightarrow> P (f d) \<Longrightarrow> (\<And>v. P v \<Longrightarrow> P (f v)) \<Longrightarrow>
   list_all (\<lambda>(k, v). P v) (modify d f k xs)"
  by (induction xs) auto

lemma entries_modify:
  "sorted_wrt (<) (map fst xs) \<Longrightarrow>
   entries k' (modify [] f k xs) = (if k' = k then f (entries k xs) else entries k' xs)"
  by (simp add: entries_def modify_lookup split: option.splits)

lemma entries_all:
  "list_all (\<lambda>(k, v). P v) xs \<Longrightarrow> P [] \<Longrightarrow> P (entries k xs)"
  by (auto simp: entries_def list_all_iff split: option.splits dest!: map_of_SomeD)

lemma put_version_keys: "fst ` set (put_version ts v vs) = insert ts (fst ` set vs)"
  by (induction vs) (auto split: if_splits simp: rev_image_eqI)

lemma put_version_sorted:
  "sorted_wrt (>) (map fst vs) \<Longrightarrow> sorted_wrt (>) (map fst (put_version ts v vs))"
proof (induction vs)
  case Nil
  show ?case by simp
next
  case (Cons x vs)
  obtain a w where x: "x = (a, w)" by (cases x)
  show ?case
  proof (cases "a < ts")
    case True
    with Cons.prems show ?thesis unfolding x by auto
  next
    case False
    show ?thesis
    proof (cases "a = ts")
      case True
      with Cons.prems show ?thesis unfolding x by simp
    next
      case ne: False
      with False have lt: "ts < a" by simp
      have "\<forall>y \<in> fst ` set (put_version ts v vs). y < a"
        using Cons.prems lt unfolding x put_version_keys by auto
      with Cons False ne show ?thesis unfolding x by simp
    qed
  qed
qed

lemma put_version_lookup:
  "map_of (put_version ts v vs) ts' = (if ts' = ts then Some v else map_of vs ts')"
  if "sorted_wrt (>) (map fst vs)"
  using that
proof (induction vs)
  case Nil
  show ?case by simp
next
  case (Cons x vs)
  obtain a w where x: "x = (a, w)" by (cases x)
  have notin: "a < ts \<Longrightarrow> map_of vs ts = None"
  proof -
    assume "a < ts"
    then have "ts \<notin> fst ` set vs" using Cons.prems unfolding x by auto
    then show ?thesis by (simp add: map_of_eq_None_iff)
  qed
  show ?case using Cons notin unfolding x by auto
qed

lemma put_version_length:
  "sorted_wrt (>) (map fst vs) \<Longrightarrow>
   length (put_version ts v vs) = (if ts \<in> fst ` set vs then length vs else Suc (length vs))"
proof (induction vs)
  case Nil
  show ?case by simp
next
  case (Cons x vs)
  obtain a w where x: "x = (a, w)" by (cases x)
  have "a < ts \<Longrightarrow> ts \<notin> fst ` set vs" using Cons.prems unfolding x by auto
  moreover have "a = ts \<Longrightarrow> ts \<notin> fst ` set vs" using Cons.prems unfolding x by auto
  ultimately show ?case using Cons unfolding x by auto
qed

lemma put_version_nonempty: "put_version ts v vs \<noteq> []"
  by (cases vs) (auto split: if_splits)

lemma modify_nonempty: "modify d f k xs \<noteq> []"
  by (cases xs) (auto split: if_splits)

subsection \<open>The shape of the store is kept by every write\<close>

lemma columns_inv_Nil: "columns_inv []" by (simp add: columns_inv_def)
lemma row_inv_Nil: "row_inv []" by (simp add: row_inv_def)
lemma store_inv_Nil: "store_inv []" by (simp add: store_inv_def)

lemma columns_inv_put:
  assumes "columns_inv cols"
  shows "columns_inv (modify [] (put_version ts v) q cols)"
proof -
  have "list_all (\<lambda>(q, vs). vs \<noteq> [] \<and> versions_inv vs) (modify [] (put_version ts v) q cols)"
    using assms unfolding columns_inv_def
    by (intro modify_all) (simp_all add: put_version_nonempty versions_inv_def put_version_sorted)
  then show ?thesis using assms by (simp add: columns_inv_def modify_sorted)
qed

lemma row_inv_put:
  assumes "row_inv rd"
  shows "row_inv (modify [] (modify [] (put_version ts v) q) fam rd)"
proof -
  let ?g = "modify [] (put_version ts v) q"
  have d: "?g [] \<noteq> [] \<and> columns_inv (?g [])"
    by (rule conjI[OF modify_nonempty columns_inv_put[OF columns_inv_Nil]])
  have st: "\<And>cols. cols \<noteq> [] \<and> columns_inv cols \<Longrightarrow> ?g cols \<noteq> [] \<and> columns_inv (?g cols)"
    by (rule conjI[OF modify_nonempty columns_inv_put]) simp
  have a: "list_all (\<lambda>(f, cols). cols \<noteq> [] \<and> columns_inv cols) rd"
    using assms by (simp add: row_inv_def)
  have "list_all (\<lambda>(f, cols). cols \<noteq> [] \<and> columns_inv cols) (modify [] ?g fam rd)"
    by (rule modify_all[where P = "\<lambda>cols. cols \<noteq> [] \<and> columns_inv cols" and f = ?g and d = "[]", OF a d st])
  then show ?thesis using assms by (simp add: row_inv_def modify_sorted)
qed

lemma store_inv_put:
  assumes "store_inv cs"
  shows "store_inv (put cs rk fam q ts v)"
proof -
  let ?g = "modify [] (modify [] (put_version ts v) q) fam"
  have d: "?g [] \<noteq> [] \<and> row_inv (?g [])"
    by (rule conjI[OF modify_nonempty row_inv_put[OF row_inv_Nil]])
  have st: "\<And>rd. rd \<noteq> [] \<and> row_inv rd \<Longrightarrow> ?g rd \<noteq> [] \<and> row_inv (?g rd)"
    by (rule conjI[OF modify_nonempty row_inv_put]) simp
  have a: "list_all (\<lambda>(k, rd). rd \<noteq> [] \<and> row_inv rd) cs"
    using assms by (simp add: store_inv_def)
  have "list_all (\<lambda>(k, rd). rd \<noteq> [] \<and> row_inv rd) (modify [] ?g rk cs)"
    by (rule modify_all[where P = "\<lambda>rd. rd \<noteq> [] \<and> row_inv rd" and f = ?g and d = "[]", OF a d st])
  then show ?thesis using assms by (simp add: store_inv_def put_def modify_sorted)
qed

lemma store_inv_row: "store_inv cs \<Longrightarrow> row_inv (entries rk cs)"
proof -
  assume "store_inv cs"
  then have "list_all (\<lambda>(k, rd). row_inv rd) cs"
    by (auto simp: store_inv_def list_all_iff)
  then show ?thesis by (rule entries_all) (rule row_inv_Nil)
qed

lemma row_inv_columns: "row_inv rd \<Longrightarrow> columns_inv (entries fam rd)"
proof -
  assume "row_inv rd"
  then have "list_all (\<lambda>(k, cols). columns_inv cols) rd"
    by (auto simp: row_inv_def list_all_iff)
  then show ?thesis by (rule entries_all) (rule columns_inv_Nil)
qed

lemma columns_inv_versions: "columns_inv cols \<Longrightarrow> versions_inv (entries q cols)"
proof -
  assume "columns_inv cols"
  then have "list_all (\<lambda>(k, vs). versions_inv vs) cols"
    by (auto simp: columns_inv_def list_all_iff)
  then show ?thesis by (rule entries_all) (simp add: versions_inv_def)
qed

lemma get_versions_inv: "store_inv cs \<Longrightarrow> versions_inv (get cs rk fam q)"
  unfolding get_def by (intro columns_inv_versions row_inv_columns store_inv_row)

lemma get_put:
  assumes "store_inv cs"
  shows "get (put cs rk fam q ts v) rk' fam' q'
     = (if rk' = rk \<and> fam' = fam \<and> q' = q then put_version ts v (get cs rk fam q)
        else get cs rk' fam' q')"
proof -
  have s1: "sorted_wrt (<) (map fst cs)" using assms by (simp add: store_inv_def)
  have s2: "sorted_wrt (<) (map fst (entries rk cs))"
    using store_inv_row[OF assms, of rk] by (simp add: row_inv_def)
  have s3: "sorted_wrt (<) (map fst (entries fam (entries rk cs)))"
    using row_inv_columns[OF store_inv_row[OF assms], of fam rk] by (simp add: columns_inv_def)
  show ?thesis
    by (simp add: get_def put_def entries_modify[OF s1] entries_modify[OF s2] entries_modify[OF s3])
qed

lemma store_inv_foldl_put:
  "store_inv cs \<Longrightarrow> store_inv (foldl (\<lambda>cs (fam, col, v, ts). put cs rk fam col ts v) cs ms)"
proof (induction ms arbitrary: cs)
  case Nil
  then show ?case by simp
next
  case (Cons m ms)
  obtain fam col v ts where m: "m = (fam, col, v, ts)" by (cases m)
  show ?case unfolding m using Cons.IH[OF store_inv_put[OF Cons.prems]] by simp
qed

lemma store_inv_apply_row: "store_inv (store t) \<Longrightarrow> store_inv (store (snd (apply_row t r)))"
  by (simp add: apply_row_def store_inv_foldl_put)

lemma store_inv_mutate_rows: "store_inv (store t) \<Longrightarrow> store_inv (store (snd (mutate_rows t rs)))"
proof (induction rs arbitrary: t)
  case Nil
  then show ?case by simp
next
  case (Cons r rs)
  from Cons.IH[OF store_inv_apply_row[OF Cons.prems]] show ?case by (simp add: split_beta)
qed

lemma store_inv_foldl_mutate:
  "store_inv (store t) \<Longrightarrow> store_inv (store (foldl mutate_rows_call t bs))"
proof (induction bs arbitrary: t)
  case Nil
  then show ?case by simp
next
  case (Cons b bs)
  have "store_inv (store (mutate_rows_call t b))"
    using store_inv_mutate_rows[OF Cons.prems] by (simp add: mutate_rows_call_def)
  from Cons.IH[OF this] show ?case by simp
qed

lemma store_inv_write_words:
  "store_inv (store t) \<Longrightarrow>
   store_inv (store (snd (snd (write_words_sized B mutate_rows_call t lines fam))))"
  by (simp add: write_words_replay store_inv_foldl_mutate)

lemma apply_row_two_cells:
  "families t \<noteq> [] \<Longrightarrow>
   store (snd (apply_row t (set_cell (set_cell (direct_row k) f1 c1 v1 ts1) f2 c2 v2 ts2)))
     = put (put (store t) k f1 c1 ts1 v1) k f2 c2 ts2 v2"
  by (simp add: apply_row_def direct_row_def set_cell_def)

lemma word_row_written:
  assumes "families t \<noteq> []" and "store_inv (store t)"
  shows "map_of (get (store (snd (apply_row t (word_row fam prev line tstamp))))
            (rstrip line) fam ''att_letters'') tstamp
          = Some (Bytes (str_nat (length (chars (rstrip line)))))"
proof -
  let ?k = "rstrip line"
  let ?cs1 = "put (store t) ?k fam ''att_letters'' tstamp (Bytes (str_nat (length (chars ?k))))"
  have i1: "store_inv ?cs1" by (rule store_inv_put[OF assms(2)])
  have s: "sorted_wrt (>) (map fst (get (store t) ?k fam ''att_letters''))"
    using get_versions_inv[OF assms(2)] by (simp add: versions_inv_def)
  show ?thesis
    unfolding word_row_def Let_def apply_row_two_cells[OF assms(1)]
    by (simp add: get_put[OF i1] get_put[OF assms(2)] put_version_lookup[OF s])
qed

text \<open>
  C8. On a store of the shape writes build, \<^verbatim>\<open>get\<close> right after
  \<^verbatim>\<open>put(rowKey, family, qualifier, timestamp, value)\<close> holds the value at that timestamp. When
  the coordinate already had a version at that timestamp the number of versions is unchanged
  (the value is overwritten), otherwise it grows by one; the versions at other timestamps are
  as before and the list stays newest first. For the script: after the row mutation of a line
  is applied to a table that accepts writes, \<^verbatim>\<open>get\<close> of the word's \<^verbatim>\<open>att_letters\<close> column
  holds the number of characters of the word at the clock reading of that iteration.
\<close>

theorem put_then_get:
  "(store_inv cs \<longrightarrow>
      map_of (get (put cs rowKey family qualifier ts v) rowKey family qualifier) ts = Some v
      \<and> (ts \<in> fst ` set (get cs rowKey family qualifier) \<longrightarrow>
           length (get (put cs rowKey family qualifier ts v) rowKey family qualifier)
             = length (get cs rowKey family qualifier))
      \<and> (ts \<notin> fst ` set (get cs rowKey family qualifier) \<longrightarrow>
           length (get (put cs rowKey family qualifier ts v) rowKey family qualifier)
             = Suc (length (get cs rowKey family qualifier)))
      \<and> (\<forall>ts'. ts' \<noteq> ts \<longrightarrow>
           map_of (get (put cs rowKey family qualifier ts v) rowKey family qualifier) ts'
             = map_of (get cs rowKey family qualifier) ts')
      \<and> sorted_wrt (>) (map fst (get (put cs rowKey family qualifier ts v) rowKey family qualifier))
      \<and> store_inv (put cs rowKey family qualifier ts v))
   \<and> (families t \<noteq> [] \<and> store_inv (store t) \<longrightarrow>
        map_of (get (store (snd (apply_row t (word_row fam prev line tstamp))))
                  (rstrip line) fam ''att_letters'') tstamp
          = Some (Bytes (str_nat (length (chars (rstrip line))))))"
proof -
  have a: "map_of (get (put cs rowKey family qualifier ts v) rowKey family qualifier) ts = Some v
      \<and> (ts \<in> fst ` set (get cs rowKey family qualifier) \<longrightarrow>
           length (get (put cs rowKey family qualifier ts v) rowKey family qualifier)
             = length (get cs rowKey family qualifier))
      \<and> (ts \<notin> fst ` set (get cs rowKey family qualifier) \<longrightarrow>
           length (get (put cs rowKey family qualifier ts v) rowKey family qualifier)
             = Suc (length (get cs rowKey family qualifier)))
      \<and> (\<forall>ts'. ts' \<noteq> ts \<longrightarrow>
           map_of (get (put cs rowKey family qualifier ts v) rowKey family qualifier) ts'
             = map_of (get cs rowKey family qualifier) ts')
      \<and> sorted_wrt (>) (map fst (get (put cs rowKey family qualifier ts v) rowKey family qualifier))
      \<and> store_inv (put cs rowKey family qualifier ts v)" if inv: "store_inv cs"
  proof -
    have s: "sorted_wrt (>) (map fst (get cs rowKey family qualifier))"
      using get_versions_inv[OF inv] by (simp add: versions_inv_def)
    have g: "get (put cs rowKey family qualifier ts v) rowKey family qualifier
        = put_version ts v (get cs rowKey family qualifier)"
      by (simp add: get_put[OF inv])
    show ?thesis
      unfolding g
      by (simp add: put_version_lookup[OF s] put_version_length[OF s] put_version_sorted[OF s]
          store_inv_put[OF inv])
  qed
  show ?thesis using a word_row_written by blast
qed

text \<open>
  C8 at a store with one version at timestamp 5, written again at timestamp 5 and written at
  timestamp 6, and at the row mutation the script builds for the line \<^verbatim>\<open>internet\<close>.
\<close>

theorem put_then_get_witness:
  "store_inv (put [] ''internet'' ''word_attributes'' ''att_letters'' 5 (Bytes ''8''))
   \<and> map_of (get (put (put [] ''internet'' ''word_attributes'' ''att_letters'' 5 (Bytes ''8''))
                  ''internet'' ''word_attributes'' ''att_letters'' 5 (Bytes ''9''))
                ''internet'' ''word_attributes'' ''att_letters'') 5 = Some (Bytes ''9'')
   \<and> 5 \<in> fst ` set (get (put [] ''internet'' ''word_attributes'' ''att_letters'' 5 (Bytes ''8''))
                ''internet'' ''word_attributes'' ''att_letters'')
   \<and> length (get (put (put [] ''internet'' ''word_attributes'' ''att_letters'' 5 (Bytes ''8''))
                  ''internet'' ''word_attributes'' ''att_letters'' 5 (Bytes ''9''))
                ''internet'' ''word_attributes'' ''att_letters'') = 1
   \<and> 6 \<notin> fst ` set (get (put [] ''internet'' ''word_attributes'' ''att_letters'' 5 (Bytes ''8''))
                ''internet'' ''word_attributes'' ''att_letters'')
   \<and> length (get (put (put [] ''internet'' ''word_attributes'' ''att_letters'' 5 (Bytes ''8''))
                  ''internet'' ''word_attributes'' ''att_letters'' 6 (Bytes ''9''))
                ''internet'' ''word_attributes'' ''att_letters'') = 2
   \<and> (5::int) \<noteq> 6
   \<and> map_of (get (put (put [] ''internet'' ''word_attributes'' ''att_letters'' 5 (Bytes ''8''))
                  ''internet'' ''word_attributes'' ''att_letters'' 6 (Bytes ''9''))
                ''internet'' ''word_attributes'' ''att_letters'') 5 = Some (Bytes ''8'')
   \<and> families \<lparr>families = [(''word_attributes'', MaxVersions 2)], store = []\<rparr> \<noteq> []
   \<and> store_inv (store \<lparr>families = [(''word_attributes'', MaxVersions 2)], store = []\<rparr>)
   \<and> map_of (get (store (snd (apply_row \<lparr>families = [(''word_attributes'', MaxVersions 2)], store = []\<rparr>
                  (word_row ''word_attributes'' ''inter'' ''internet'' 7))))
                ''internet'' ''word_attributes'' ''att_letters'') 7 = Some (Bytes ''8'')"
proof -
  let ?cs = "put [] ''internet'' ''word_attributes'' ''att_letters'' 5 (Bytes ''8'')"
  let ?t = "\<lparr>families = [(''word_attributes'', MaxVersions 2)], store = []\<rparr>"
  note th = put_then_get[where cs = ?cs and rowKey = "''internet''" and family = "''word_attributes''"
      and qualifier = "''att_letters''" and ts = 5 and v = "Bytes ''9''" and t = ?t
      and fam = "''word_attributes''" and prev = "''inter''" and line = "''internet''" and tstamp = 7]
  note th6 = put_then_get[where cs = ?cs and rowKey = "''internet''" and family = "''word_attributes''"
      and qualifier = "''att_letters''" and ts = 6 and v = "Bytes ''9''"]
  have h1: "store_inv ?cs"
    by (simp add: store_inv_def row_inv_def columns_inv_def versions_inv_def put_def)
  have g0: "get ?cs ''internet'' ''word_attributes'' ''att_letters'' = [(5, Bytes ''8'')]"
    by (simp add: get_def put_def entries_def)
  have h2: "5 \<in> fst ` set (get ?cs ''internet'' ''word_attributes'' ''att_letters'')"
    unfolding g0 by simp
  have h2': "6 \<notin> fst ` set (get ?cs ''internet'' ''word_attributes'' ''att_letters'')"
    unfolding g0 by simp
  have h3: "families ?t \<noteq> []" by simp
  have h4: "store_inv (store ?t)" by (simp add: store_inv_def)
  have h5: "(5::int) \<noteq> 6" by simp
  have r: "rstrip ''internet'' = ''internet''"
    by (simp add: rstrip_def isspace_def continuation_def)
  have n: "str_nat (length (chars ''internet'')) = ''8''"
    by (simp add: str_nat.simps continuation_def)
  have c1: "map_of (get (put ?cs ''internet'' ''word_attributes'' ''att_letters'' 5 (Bytes ''9''))
                ''internet'' ''word_attributes'' ''att_letters'') 5 = Some (Bytes ''9'')"
    using th[THEN conjunct1, THEN mp, OF h1, THEN conjunct1] .
  have c2: "length (get (put ?cs ''internet'' ''word_attributes'' ''att_letters'' 5 (Bytes ''9''))
                ''internet'' ''word_attributes'' ''att_letters'') = 1"
    using th[THEN conjunct1, THEN mp, OF h1, THEN conjunct2, THEN conjunct1, THEN mp, OF h2]
    unfolding g0 by simp
  have c2': "length (get (put ?cs ''internet'' ''word_attributes'' ''att_letters'' 6 (Bytes ''9''))
                ''internet'' ''word_attributes'' ''att_letters'') = 2"
    using th6[THEN conjunct1, THEN mp, OF h1, THEN conjunct2, THEN conjunct2, THEN conjunct1,
        THEN mp, OF h2']
    unfolding g0 by simp
  have c2'': "map_of (get (put ?cs ''internet'' ''word_attributes'' ''att_letters'' 6 (Bytes ''9''))
                ''internet'' ''word_attributes'' ''att_letters'') 5 = Some (Bytes ''8'')"
    using th6[THEN conjunct1, THEN mp, OF h1, THEN conjunct2, THEN conjunct2, THEN conjunct2,
        THEN conjunct1, THEN spec, of 5, THEN mp, OF h5]
    unfolding g0 by simp
  have c3: "map_of (get (store (snd (apply_row ?t (word_row ''word_attributes'' ''inter'' ''internet'' 7))))
                ''internet'' ''word_attributes'' ''att_letters'') 7 = Some (Bytes ''8'')"
    using th[THEN conjunct2, THEN mp, OF conjI[OF h3 h4]] unfolding r n .
  show ?thesis using h1 c1 h2 c2 h2' c2' h5 c2'' h3 h4 c3 by (intro conjI)
qed

subsection \<open>Garbage collection\<close>

lemma entries_pruned:
  assumes "sorted_wrt (<) (map fst (xs :: ('k::linorder \<times> 'v list) list))" and "h k [] = []"
  shows "entries k (filter (\<lambda>(k, v). v \<noteq> []) (map (\<lambda>(k, v). (k, h k v)) xs)) = h k (entries k xs)"
  using assms(1)
proof (induction xs)
  case Nil
  show ?case using assms(2) by (simp add: entries_def)
next
  case (Cons x xs)
  obtain a v where x: "x = (a, v)" by (cases x)
  have s: "sorted_wrt (<) (map fst xs)" using Cons.prems by simp
  show ?case
  proof (cases "a = k")
    case True
    have "\<forall>y \<in> fst ` set xs. k < y" using Cons.prems unfolding x True by simp
    then have "k \<notin> fst ` set xs" by auto
    then have none: "map_of xs k = None" by (simp add: map_of_eq_None_iff)
    then have e: "entries k xs = []" by (simp add: entries_def)
    show ?thesis
    proof (cases "h k v = []")
      case empty: True
      have "entries k (filter (\<lambda>(k, v). v \<noteq> []) (map (\<lambda>(k, v). (k, h k v)) xs)) = []"
        using Cons.IH[OF s] by (simp add: e assms(2))
      moreover have "entries k ((k, v) # xs) = v" by (simp add: entries_def)
      ultimately show ?thesis unfolding x True by (simp add: empty)
    next
      case False
      then show ?thesis unfolding x True by (simp add: entries_def)
    qed
  next
    case False
    then show ?thesis using Cons.IH[OF s] unfolding x by (simp add: entries_def)
  qed
qed

lemma pruned_sorted:
  "sorted_wrt (<) (map fst xs) \<Longrightarrow>
   sorted_wrt (<) (map fst (filter (\<lambda>(k, v). v \<noteq> []) (map (\<lambda>(k, v). (k, h k v)) xs)))"
  by (induction xs) (auto simp: rev_image_eqI)

lemma pruned_all:
  "list_all (\<lambda>(k, v). v \<noteq> [] \<and> P v) xs \<Longrightarrow> (\<And>k v. P v \<Longrightarrow> P (h k v)) \<Longrightarrow>
   list_all (\<lambda>(k, v). v \<noteq> [] \<and> P v) (filter (\<lambda>(k, v). v \<noteq> []) (map (\<lambda>(k, v). (k, h k v)) xs))"
  by (induction xs) auto

lemma retain_Nil: "retain rule [] = []"
  by (cases rule) simp

lemma versions_inv_retain: "versions_inv vs \<Longrightarrow> versions_inv (retain rule vs)"
  by (cases rule) (simp add: versions_inv_def sorted_wrt_take take_map[symmetric])

lemma gc_columns_Nil: "gc_columns rule [] = []"
  by (simp add: gc_columns_def)

lemma gc_row_data_Nil: "gc_row_data rule fam [] = []"
  by (simp add: gc_row_data_def)

lemma columns_inv_gc: "columns_inv cols \<Longrightarrow> columns_inv (gc_columns rule cols)"
  unfolding columns_inv_def gc_columns_def
  by (intro conjI pruned_sorted pruned_all[where P = versions_inv]) (simp_all add: versions_inv_retain)

lemma row_inv_gc: "row_inv rd \<Longrightarrow> row_inv (gc_row_data rule fam rd)"
  unfolding row_inv_def gc_row_data_def
  by (intro conjI pruned_sorted pruned_all[where P = columns_inv]) (simp_all add: columns_inv_gc)

lemma store_inv_gc: "store_inv cs \<Longrightarrow> store_inv (gc_store rule rk fam cs)"
  unfolding store_inv_def gc_store_def
  by (intro conjI pruned_sorted pruned_all[where P = row_inv]) (simp_all add: row_inv_gc)

lemma get_gc_store:
  assumes "store_inv cs"
  shows "get (gc_store rule rk fam cs) rk' fam' q
     = (if rk' = rk \<and> fam' = fam then retain rule (get cs rk' fam' q) else get cs rk' fam' q)"
proof -
  have s1: "sorted_wrt (<) (map fst cs)" using assms by (simp add: store_inv_def)
  have s2: "sorted_wrt (<) (map fst (entries rk' cs))"
    using store_inv_row[OF assms, of rk'] by (simp add: row_inv_def)
  have s3: "sorted_wrt (<) (map fst (entries fam' (entries rk' cs)))"
    using row_inv_columns[OF store_inv_row[OF assms], of fam' rk'] by (simp add: columns_inv_def)
  have e1: "entries rk' (gc_store rule rk fam cs)
      = (if rk' = rk then gc_row_data rule fam (entries rk' cs) else entries rk' cs)"
    unfolding gc_store_def
    using entries_pruned[OF s1, where h = "\<lambda>k rd. if k = rk then gc_row_data rule fam rd else rd" and k = rk']
    by (simp add: gc_row_data_Nil)
  have e2: "entries fam' (gc_row_data rule fam (entries rk' cs))
      = (if fam' = fam then gc_columns rule (entries fam' (entries rk' cs)) else entries fam' (entries rk' cs))"
    unfolding gc_row_data_def
    using entries_pruned[OF s2, where h = "\<lambda>f cols. if f = fam then gc_columns rule cols else cols" and k = fam']
    by (simp add: gc_columns_Nil)
  have e3: "entries q (gc_columns rule (entries fam' (entries rk' cs)))
      = retain rule (entries q (entries fam' (entries rk' cs)))"
    unfolding gc_columns_def
    using entries_pruned[OF s3, where h = "\<lambda>q vs. retain rule vs" and k = q]
    by (simp add: retain_Nil)
  show ?thesis
  proof (cases "rk' = rk")
    case True
    show ?thesis
    proof (cases "fam' = fam")
      case f: True
      from e1 e2 e3 show ?thesis unfolding get_def using True f by simp
    next
      case f: False
      from e1 e2 show ?thesis unfolding get_def using True f by simp
    qed
  next
    case False
    from e1 show ?thesis unfolding get_def using False by simp
  qed
qed

lemma sorted_take_drop:
  assumes "sorted_wrt (>) (map fst (vs :: versions))"
  shows "\<forall>kept \<in> set (take n vs). \<forall>dropped \<in> set (drop n vs). fst dropped < fst kept"
proof -
  have "sorted_wrt (>) (map fst (take n vs @ drop n vs))" using assms by simp
  then show ?thesis
    unfolding map_append sorted_wrt_append by auto
qed

text \<open>
  C6. For a table whose family has the rule \<^verbatim>\<open>MaxVersions(N)\<close>, after \<^verbatim>\<open>applyGC\<close> on a row
  and that family, \<^verbatim>\<open>get\<close> of any qualifier returns the first \<open>N\<close> of the versions it returned
  before, newest first. With more than \<open>N\<close> versions before, exactly \<open>N\<close> remain; every
  version kept is more recent than every version dropped.
\<close>

theorem gc_max_versions:
  assumes "store_inv (store t)" and "map_of (families t) family = Some (MaxVersions N)"
  shows "get (store (applyGC t rowKey family)) rowKey family qualifier
           = take (nat N) (get (store t) rowKey family qualifier)
       \<and> (nat N < length (get (store t) rowKey family qualifier) \<longrightarrow>
            length (get (store (applyGC t rowKey family)) rowKey family qualifier) = nat N)
       \<and> (\<forall>kept \<in> set (get (store (applyGC t rowKey family)) rowKey family qualifier).
            \<forall>dropped \<in> set (drop (nat N) (get (store t) rowKey family qualifier)).
              fst dropped < fst kept)
       \<and> get (store t) rowKey family qualifier
           = get (store (applyGC t rowKey family)) rowKey family qualifier
             @ drop (nat N) (get (store t) rowKey family qualifier)
       \<and> store_inv (store (applyGC t rowKey family))"
proof -
  have s: "sorted_wrt (>) (map fst (get (store t) rowKey family qualifier))"
    using get_versions_inv[OF assms(1)] by (simp add: versions_inv_def)
  have g: "get (store (applyGC t rowKey family)) rowKey family qualifier
           = take (nat N) (get (store t) rowKey family qualifier)"
    using assms(2) by (simp add: applyGC_def get_gc_store[OF assms(1)])
  have i: "store_inv (store (applyGC t rowKey family))"
    using assms by (simp add: applyGC_def store_inv_gc)
  show ?thesis
    unfolding g using sorted_take_drop[OF s, of "nat N"] i by simp
qed
text \<open>
  C6 at the scenario of the specification: a table with family \<^verbatim>\<open>F\<close> under
  \<^verbatim>\<open>MaxVersions(2)\<close>, qualifier \<^verbatim>\<open>q\<close> written at timestamps 1, 2, 3 with values a, b, c;
  after GC, \<^verbatim>\<open>get\<close> returns (3, c), (2, b).
\<close>

theorem gc_max_versions_witness:
  "create Map.empty ''T'' [(''F'', MaxVersions 2)]
     = Inr [''T'' \<mapsto> \<lparr>families = [(''F'', MaxVersions 2)], store = []\<rparr>]
   \<and> store_inv (store \<lparr>families = [(''F'', MaxVersions 2)],
              store = put (put (put [] ''row'' ''F'' ''q'' 1 (Bytes ''a''))
                        ''row'' ''F'' ''q'' 2 (Bytes ''b'')) ''row'' ''F'' ''q'' 3 (Bytes ''c'')\<rparr>)
   \<and> map_of (families \<lparr>families = [(''F'', MaxVersions 2)],
              store = put (put (put [] ''row'' ''F'' ''q'' 1 (Bytes ''a''))
                        ''row'' ''F'' ''q'' 2 (Bytes ''b'')) ''row'' ''F'' ''q'' 3 (Bytes ''c'')\<rparr>)
        ''F'' = Some (MaxVersions 2)
   \<and> get (put (put (put [] ''row'' ''F'' ''q'' 1 (Bytes ''a''))
                        ''row'' ''F'' ''q'' 2 (Bytes ''b'')) ''row'' ''F'' ''q'' 3 (Bytes ''c''))
          ''row'' ''F'' ''q'' = [(3, Bytes ''c''), (2, Bytes ''b''), (1, Bytes ''a'')]
   \<and> get (store (applyGC
           \<lparr>families = [(''F'', MaxVersions 2)],
              store = put (put (put [] ''row'' ''F'' ''q'' 1 (Bytes ''a''))
                        ''row'' ''F'' ''q'' 2 (Bytes ''b'')) ''row'' ''F'' ''q'' 3 (Bytes ''c'')\<rparr>
           ''row'' ''F'')) ''row'' ''F'' ''q''
       = [(3, Bytes ''c''), (2, Bytes ''b'')]
   \<and> length (get (store (applyGC
           \<lparr>families = [(''F'', MaxVersions 2)],
              store = put (put (put [] ''row'' ''F'' ''q'' 1 (Bytes ''a''))
                        ''row'' ''F'' ''q'' 2 (Bytes ''b'')) ''row'' ''F'' ''q'' 3 (Bytes ''c'')\<rparr>
           ''row'' ''F'')) ''row'' ''F'' ''q'') = 2"
proof -
  let ?cs = "put (put (put [] ''row'' ''F'' ''q'' 1 (Bytes ''a''))
                        ''row'' ''F'' ''q'' 2 (Bytes ''b'')) ''row'' ''F'' ''q'' 3 (Bytes ''c'')"
  let ?t = "\<lparr>families = [(''F'', MaxVersions 2)], store = ?cs\<rparr>"
  have c0: "create Map.empty ''T'' [(''F'', MaxVersions 2)]
     = Inr [''T'' \<mapsto> \<lparr>families = [(''F'', MaxVersions 2)], store = []\<rparr>]"
    by (simp add: create_def exists_def defineFamily_def)
  have h1: "store_inv (store ?t)"
    by (simp add: store_inv_def row_inv_def columns_inv_def versions_inv_def put_def)
  have h2: "map_of (families ?t) ''F'' = Some (MaxVersions 2)" by simp
  have g0: "get ?cs ''row'' ''F'' ''q'' = [(3, Bytes ''c''), (2, Bytes ''b''), (1, Bytes ''a'')]"
    by (simp add: get_def put_def entries_def)
  have h3: "nat 2 < length (get (store ?t) ''row'' ''F'' ''q'')"
    using g0 by simp
  note th = gc_max_versions[OF h1 h2, of "''row''" "''q''"]
  have c1: "get (store (applyGC ?t ''row'' ''F'')) ''row'' ''F'' ''q'' = [(3, Bytes ''c''), (2, Bytes ''b'')]"
    using th[THEN conjunct1] g0 by simp
  have c2: "length (get (store (applyGC ?t ''row'' ''F'')) ''row'' ''F'' ''q'') = 2"
    using th[THEN conjunct2, THEN conjunct1, THEN mp, OF h3] by simp
  show ?thesis using c0 h1 h2 g0 c1 c2 by (intro conjI)
qed

subsection \<open>Range scans\<close>

lemma dropWhile_below:
  "sorted_wrt (<) (map fst (xs :: ('k::linorder \<times> 'v) list)) \<Longrightarrow>
   dropWhile (\<lambda>(k, d). k < lo) xs = filter (\<lambda>(k, d). lo \<le> k) xs"
proof (induction xs)
  case Nil
  show ?case by simp
next
  case (Cons x xs)
  obtain a d where x: "x = (a, d)" by (cases x)
  show ?case
  proof (cases "a < lo")
    case True
    with Cons show ?thesis unfolding x by simp
  next
    case False
    then have "\<forall>y \<in> set xs. lo \<le> fst y" using Cons.prems unfolding x by fastforce
    then have "filter (\<lambda>(k, d). lo \<le> k) xs = xs" by (auto simp: filter_id_conv)
    with False show ?thesis unfolding x by simp
  qed
qed

lemma takeWhile_below:
  "sorted_wrt (<) (map fst (xs :: ('k::linorder \<times> 'v) list)) \<Longrightarrow>
   takeWhile (\<lambda>(k, d). k < hi) xs = filter (\<lambda>(k, d). k < hi) xs"
proof (induction xs)
  case Nil
  show ?case by simp
next
  case (Cons x xs)
  obtain a d where x: "x = (a, d)" by (cases x)
  show ?case
  proof (cases "a < hi")
    case True
    with Cons show ?thesis unfolding x by simp
  next
    case False
    then have "\<forall>y \<in> set xs. \<not> fst y < hi" using Cons.prems unfolding x by fastforce
    then have "filter (\<lambda>(k, d). k < hi) xs = []" by (auto simp: filter_empty_conv)
    with False show ?thesis unfolding x by simp
  qed
qed

lemma scan_as_filter:
  assumes "sorted_wrt (<) (map fst cs)"
  shows "scan cs lo hi = map (\<lambda>(k, d). \<lparr>row_key = k, cells = d\<rparr>) (filter (\<lambda>(k, d). lo \<le> k \<and> k < hi) cs)"
proof -
  have "sorted_wrt (<) (map fst (filter (\<lambda>(k, d). lo \<le> k) cs))"
    using assms by (simp add: sorted_wrt_map sorted_wrt_filter)
  then have "takeWhile (\<lambda>(k, d). k < hi) (filter (\<lambda>(k, d). lo \<le> k) cs)
      = filter (\<lambda>(k, d). k < hi) (filter (\<lambda>(k, d). lo \<le> k) cs)"
    by (rule takeWhile_below)
  also have "\<dots> = filter (\<lambda>(k, d). lo \<le> k \<and> k < hi) cs"
    by (simp add: case_prod_unfold conj_commute)
  finally show ?thesis
    by (simp add: scan_def dropWhile_below[OF assms])
qed

lemma row_key_apply_filter: "row_key (apply_filter flt r) = row_key r"
proof (cases flt)
  case None
  then show ?thesis by simp
next
  case (Some f)
  then show ?thesis by (cases f) simp
qed

lemma readRange_keys:
  assumes "sorted_wrt (<) (map fst (store t))"
  shows "map row_key (readRange t lo hi flt) = filter (\<lambda>k. lo \<le> k \<and> k < hi) (map fst (store t))"
  by (simp add: readRange_def scan_as_filter[OF assms] comp_def row_key_apply_filter
      case_prod_unfold filter_map)

lemma readRange_rows:
  assumes "sorted_wrt (<) (map fst (store t))"
  shows "list_all (\<lambda>r. readRow t (row_key r) flt = Some r) (readRange t lo hi flt)"
proof -
  have d: "distinct (map fst (store t))"
    using assms by (simp add: strict_sorted_iff[symmetric] sorted_wrt_map) (metis assms distinct_map inj_on_def sorted_wrt_map strict_sorted_iff)
  have "\<And>k d'. (k, d') \<in> set (store t) \<Longrightarrow> map_of (store t) k = Some d'"
    using d by simp
  then show ?thesis
    by (auto simp: list_all_iff readRange_def scan_as_filter[OF assms] readRow_def row_key_apply_filter)
qed

lemma scan_empty_range: "scan cs k k = []"
proof -
  have "takeWhile (\<lambda>(k', d). k' < k) (dropWhile (\<lambda>(k', d). k' < k) cs) = []"
  proof (cases "dropWhile (\<lambda>(k', d). k' < k) cs")
    case Nil
    show ?thesis unfolding Nil by simp
  next
    case (Cons y ys)
    then have "\<not> (case y of (k', d) \<Rightarrow> k' < k)"
      unfolding dropWhile_eq_Cons_conv by blast
    then show ?thesis unfolding Cons by simp
  qed
  then show ?thesis by (simp add: scan_def)
qed

lemma scan_below_end: "r \<in> set (scan cs lo hi) \<Longrightarrow> row_key r < hi"
  by (auto simp: scan_def dest!: set_takeWhileD)

text \<open>
  C4. On a store of the shape writes build, a range scan returns exactly the rows whose keys
  \<open>k\<close> satisfy \<open>startKey \<le> k < endKey\<close> in the byte-wise lexicographic order, in ascending
  key order, each as a single read of that key returns it. On any store a scan whose start
  equals its end returns the empty sequence (the result is a list: there is no error), and
  the script's scan from \<^verbatim>\<open>inte\<close> to \<^verbatim>\<open>internet\<close> never returns the row keyed
  \<^verbatim>\<open>internet\<close>.
\<close>

theorem range_scan_bounds:
  "(store_inv (store t) \<longrightarrow>
      map row_key (readRange t startKey endKey flt)
        = filter (\<lambda>k. startKey \<le> k \<and> k < endKey) (map fst (store t))
      \<and> sorted_wrt (<) (map row_key (readRange t startKey endKey flt))
      \<and> list_all (\<lambda>r. readRow t (row_key r) flt = Some r) (readRange t startKey endKey flt))
   \<and> readRange t startKey startKey flt = []
   \<and> ''internet'' \<notin> row_key ` set (readRange t ''inte'' ''internet'' flt)"
proof -
  have a: "map row_key (readRange t startKey endKey flt)
        = filter (\<lambda>k. startKey \<le> k \<and> k < endKey) (map fst (store t))
      \<and> sorted_wrt (<) (map row_key (readRange t startKey endKey flt))
      \<and> list_all (\<lambda>r. readRow t (row_key r) flt = Some r) (readRange t startKey endKey flt)"
    if "store_inv (store t)"
  proof -
    have s: "sorted_wrt (<) (map fst (store t))" using that by (simp add: store_inv_def)
    then have "sorted_wrt (<) (filter (\<lambda>k. startKey \<le> k \<and> k < endKey) (map fst (store t)))"
      by (rule sorted_wrt_filter)
    then show ?thesis using readRange_keys[OF s] readRange_rows[OF s] by simp
  qed
  have b: "readRange t startKey startKey flt = []"
    by (simp add: readRange_def scan_empty_range)
  have c: "''internet'' \<notin> row_key ` set (readRange t ''inte'' ''internet'' flt)"
  proof -
    have "''internet'' \<notin> row_key ` set (scan (store t) ''inte'' ''internet'')"
    proof
      assume "''internet'' \<in> row_key ` set (scan (store t) ''inte'' ''internet'')"
      then obtain r where r: "r \<in> set (scan (store t) ''inte'' ''internet'')"
        and k: "row_key r = ''internet''" by auto
      from scan_below_end[OF r] k show False by simp
    qed
    then show ?thesis
      by (simp add: readRange_def image_image row_key_apply_filter)
  qed
  show ?thesis using a b c by blast
qed
text \<open>
  C4 at rows keyed a, b, c, d (written in another order): the scan from a to c returns
  exactly a and b.
\<close>

theorem range_scan_bounds_witness:
  "store_inv (store \<lparr>families = [(''F'', MaxVersions 2)],
      store = put (put (put (put [] ''d'' ''F'' ''q'' 1 (Bytes ''4'')) ''b'' ''F'' ''q'' 1 (Bytes ''2''))
                 ''a'' ''F'' ''q'' 1 (Bytes ''1'')) ''c'' ''F'' ''q'' 1 (Bytes ''3'')\<rparr>)
   \<and> map fst (store \<lparr>families = [(''F'', MaxVersions 2)],
      store = put (put (put (put [] ''d'' ''F'' ''q'' 1 (Bytes ''4'')) ''b'' ''F'' ''q'' 1 (Bytes ''2''))
                 ''a'' ''F'' ''q'' 1 (Bytes ''1'')) ''c'' ''F'' ''q'' 1 (Bytes ''3'')\<rparr>)
       = [''a'', ''b'', ''c'', ''d'']
   \<and> map row_key (readRange \<lparr>families = [(''F'', MaxVersions 2)],
      store = put (put (put (put [] ''d'' ''F'' ''q'' 1 (Bytes ''4'')) ''b'' ''F'' ''q'' 1 (Bytes ''2''))
                 ''a'' ''F'' ''q'' 1 (Bytes ''1'')) ''c'' ''F'' ''q'' 1 (Bytes ''3'')\<rparr>
        ''a'' ''c'' None) = [''a'', ''b'']"
proof -
  let ?cs = "put (put (put (put [] ''d'' ''F'' ''q'' 1 (Bytes ''4'')) ''b'' ''F'' ''q'' 1 (Bytes ''2''))
                 ''a'' ''F'' ''q'' 1 (Bytes ''1'')) ''c'' ''F'' ''q'' 1 (Bytes ''3'')"
  let ?t = "\<lparr>families = [(''F'', MaxVersions 2)], store = ?cs\<rparr>"
  have h: "store_inv (store ?t)"
    by (simp add: store_inv_def row_inv_def columns_inv_def versions_inv_def put_def)
  have k: "map fst (store ?t) = [''a'', ''b'', ''c'', ''d'']"
    by (simp add: put_def)
  have c: "map row_key (readRange ?t ''a'' ''c'' None) = [''a'', ''b'']"
    using range_scan_bounds[where t = ?t and startKey = "''a''" and endKey = "''c''" and flt = None,
        THEN conjunct1, THEN mp, OF h, THEN conjunct1]
    unfolding k by simp
  show ?thesis using h k c by (intro conjI)
qed

section \<open>Properties of the script\<close>

text \<open>
  C3, as stated, fails for the script's table-creation step: on an instance where the table
  \<^verbatim>\<open>words\<close> exists (here with another column family), lines 88 to 100 end without an error,
  print that the table already exists and leave the table as it was.
\<close>

theorem main_create_existing_counterexample:
  "main_create ''words''
     \<lparr>stdout = [], tabs = [''words'' \<mapsto> \<lparr>families = [(''other'', MaxVersions 1)], store = []\<rparr>]\<rparr>
   = Inr \<lparr>stdout = [''Creating the words table.'',
                    ''Creating column family with Max Version GC rule...'',
                    ''Table words already exists.''],
          tabs = [''words'' \<mapsto> \<lparr>families = [(''other'', MaxVersions 1)], store = []\<rparr>]\<rparr>"
  by (simp add: main_create_def main_create_with_def exists_def Let_def)

lemma defineFamilies_well_formed:
  "distinct (map fst (fams @ familyConfigs)) \<Longrightarrow>
   list_all (\<lambda>(name, gcRule). \<not> malformed gcRule) familyConfigs \<Longrightarrow>
   defineFamilies fams familyConfigs = Inr (fams @ familyConfigs)"
proof (induction familyConfigs arbitrary: fams)
  case Nil
  show ?case by simp
next
  case (Cons c rest)
  obtain name gcRule where c: "c = (name, gcRule)" by (cases c)
  have d: "defineFamily fams name gcRule = Inr (fams @ [(name, gcRule)])"
    using Cons.prems unfolding c by (auto simp: defineFamily_def)
  have "defineFamilies (fams @ [(name, gcRule)]) rest = Inr ((fams @ [(name, gcRule)]) @ rest)"
    using Cons.prems unfolding c by (intro Cons.IH) simp_all
  then show ?case unfolding c by (simp add: d)
qed

text \<open>
  C3, amended. The script calls \<^verbatim>\<open>table.create\<close> only when \<^verbatim>\<open>table.exists()\<close> is false.
  Whatever the two methods do: when \<^verbatim>\<open>exists()\<close> is true, the creation step (lines 88 to 100)
  does not call \<^verbatim>\<open>create\<close>, prints "Table ... already exists." and leaves the tables
  unchanged, raising nothing; when it is false, the step is the \<^verbatim>\<open>create\<close> call with the
  family \<^verbatim>\<open>word_attributes\<close> under \<^verbatim>\<open>MaxVersions(2)\<close>. On the store engine the step never
  raises \<open>TableExistsError\<close>, and creates the missing table with an empty store. The
  \<^verbatim>\<open>create\<close> operation itself fails with \<open>TableExistsError\<close> when a table of that name exists,
  and otherwise creates the table with the given configuration (distinct family names, no
  malformed rule) and an empty store.
\<close>

theorem main_create_guarded:
  "(table_exists (tabs w) table_id \<longrightarrow>
        main_create_with table_exists table_create table_id w
          = Inr (w\<lparr>stdout := stdout w @ [''Creating the '' @ table_id @ '' table.'',
                                          ''Creating column family with Max Version GC rule...'',
                                          ''Table '' @ table_id @ '' already exists.'']\<rparr>))
   \<and> (\<not> table_exists (tabs w) table_id \<longrightarrow>
        main_create_with table_exists table_create table_id w
          = (case table_create (tabs w) table_id [(column_family_id, MaxVersions 2)] of
               Inl e \<Rightarrow> Inl e
             | Inr ts \<Rightarrow>
                 Inr (w\<lparr>stdout := stdout w @ [''Creating the '' @ table_id @ '' table.'',
                                                ''Creating column family with Max Version GC rule...''],
                         tabs := ts\<rparr>)))
   \<and> (\<not> exists (tabs w) table_id \<longrightarrow>
        main_create table_id w
          = Inr (w\<lparr>stdout := stdout w @ [''Creating the '' @ table_id @ '' table.'',
                                          ''Creating column family with Max Version GC rule...''],
                   tabs := (tabs w)(table_id \<mapsto>
                     \<lparr>families = [(column_family_id, MaxVersions 2)], store = []\<rparr>)\<rparr>))
   \<and> main_create table_id w \<noteq> Inl TableExistsError
   \<and> (exists ts name \<longrightarrow> create ts name familyConfigs = Inl TableExistsError)
   \<and> (\<not> exists ts name \<and> distinct (map fst familyConfigs)
        \<and> list_all (\<lambda>(name, gcRule). \<not> malformed gcRule) familyConfigs \<longrightarrow>
        create ts name familyConfigs
          = Inr (ts(name \<mapsto> \<lparr>families = familyConfigs, store = []\<rparr>)))"
proof -
  have a: "create ts name familyConfigs = Inl TableExistsError" if "exists ts name"
    using that by (simp add: create_def)
  have b: "create ts name familyConfigs = Inr (ts(name \<mapsto> \<lparr>families = familyConfigs, store = []\<rparr>))"
    if "\<not> exists ts name" "distinct (map fst familyConfigs)"
       "list_all (\<lambda>(name, gcRule). \<not> malformed gcRule) familyConfigs"
    using that defineFamilies_well_formed[of "[]" familyConfigs] by (simp add: create_def)
  have c: "main_create_with ex cr table_id w
          = Inr (w\<lparr>stdout := stdout w @ [''Creating the '' @ table_id @ '' table.'',
                                          ''Creating column family with Max Version GC rule...'',
                                          ''Table '' @ table_id @ '' already exists.'']\<rparr>)"
    if "ex (tabs w) table_id" for ex cr
    using that by (simp add: main_create_with_def Let_def)
  have d: "main_create_with ex cr table_id w
          = (case cr (tabs w) table_id [(column_family_id, MaxVersions 2)] of
               Inl e \<Rightarrow> Inl e
             | Inr ts \<Rightarrow>
                 Inr (w\<lparr>stdout := stdout w @ [''Creating the '' @ table_id @ '' table.'',
                                                ''Creating column family with Max Version GC rule...''],
                         tabs := ts\<rparr>))"
    if "\<not> ex (tabs w) table_id" for ex cr
    using that by (simp add: main_create_with_def Let_def split: sum.splits)
  have d': "main_create table_id w
          = Inr (w\<lparr>stdout := stdout w @ [''Creating the '' @ table_id @ '' table.'',
                                          ''Creating column family with Max Version GC rule...''],
                   tabs := (tabs w)(table_id \<mapsto>
                     \<lparr>families = [(column_family_id, MaxVersions 2)], store = []\<rparr>)\<rparr>)"
    if "\<not> exists (tabs w) table_id"
    unfolding main_create_def d[of exists create, OF that]
    using that by (simp add: create_def defineFamily_def)
  have e: "main_create table_id w \<noteq> Inl TableExistsError"
  proof (cases "exists (tabs w) table_id")
    case True
    show ?thesis unfolding main_create_def c[of exists create, OF True] by simp
  next
    case False
    show ?thesis unfolding d'[OF False] by simp
  qed
  show ?thesis using a b c d d' e by blast
qed

text \<open>
  C3, amended, at an instance that has the table \<^verbatim>\<open>words\<close> and at an empty instance.
\<close>

theorem main_create_guarded_witness:
  "exists (tabs \<lparr>stdout = [], tabs = [''words'' \<mapsto> \<lparr>families = [(''other'', MaxVersions 1)], store = []\<rparr>]\<rparr>)
      ''words''
   \<and> main_create_with exists create ''words''
        \<lparr>stdout = [], tabs = [''words'' \<mapsto> \<lparr>families = [(''other'', MaxVersions 1)], store = []\<rparr>]\<rparr>
      = Inr \<lparr>stdout = [''Creating the words table.'',
                       ''Creating column family with Max Version GC rule...'',
                       ''Table words already exists.''],
             tabs = [''words'' \<mapsto> \<lparr>families = [(''other'', MaxVersions 1)], store = []\<rparr>]\<rparr>
   \<and> \<not> exists (tabs \<lparr>stdout = [], tabs = Map.empty\<rparr>) ''words''
   \<and> main_create_with exists create ''words'' \<lparr>stdout = [], tabs = Map.empty\<rparr>
      = Inr \<lparr>stdout = [''Creating the words table.'',
                       ''Creating column family with Max Version GC rule...''],
             tabs = [''words'' \<mapsto> \<lparr>families = [(''word_attributes'', MaxVersions 2)], store = []\<rparr>]\<rparr>
   \<and> main_create ''words'' \<lparr>stdout = [], tabs = Map.empty\<rparr>
      = Inr \<lparr>stdout = [''Creating the words table.'',
                       ''Creating column family with Max Version GC rule...''],
             tabs = [''words'' \<mapsto> \<lparr>families = [(''word_attributes'', MaxVersions 2)], store = []\<rparr>]\<rparr>
   \<and> exists [''words'' \<mapsto> \<lparr>families = [(''other'', MaxVersions 1)], store = []\<rparr>] ''words''
   \<and> create [''words'' \<mapsto> \<lparr>families = [(''other'', MaxVersions 1)], store = []\<rparr>] ''words''
         [(''word_attributes'', MaxVersions 2)] = Inl TableExistsError
   \<and> \<not> exists Map.empty ''words''
   \<and> distinct (map fst [(''word_attributes'', MaxVersions 2)])
   \<and> list_all (\<lambda>(name, gcRule). \<not> malformed gcRule) [(''word_attributes'', MaxVersions 2)]
   \<and> create Map.empty ''words'' [(''word_attributes'', MaxVersions 2)]
        = Inr [''words'' \<mapsto> \<lparr>families = [(''word_attributes'', MaxVersions 2)], store = []\<rparr>]"
proof -
  let ?old = "\<lparr>families = [(''other'', MaxVersions 1)], store = []\<rparr>"
  let ?cfg = "[(''word_attributes'', MaxVersions 2)]"
  let ?w1 = "\<lparr>stdout = [], tabs = [''words'' \<mapsto> ?old]\<rparr>"
  let ?w2 = "\<lparr>stdout = [], tabs = Map.empty\<rparr>"
  have h1: "exists [''words'' \<mapsto> ?old] ''words''" by (simp add: exists_def)
  have h1': "exists (tabs ?w1) ''words''" by (simp add: exists_def)
  have h2: "\<not> exists Map.empty ''words''" by (simp add: exists_def)
  have h2': "\<not> exists (tabs ?w2) ''words''" by (simp add: exists_def)
  have h3: "distinct (map fst ?cfg)" by simp
  have h4: "list_all (\<lambda>(name, gcRule). \<not> malformed gcRule) ?cfg" by simp
  note t1 = main_create_guarded[where ts = "[''words'' \<mapsto> ?old]" and name = "''words''"
      and familyConfigs = ?cfg and w = ?w1 and table_id = "''words''"
      and table_exists = exists and table_create = create]
  note t2 = main_create_guarded[where ts = "Map.empty" and name = "''words''"
      and familyConfigs = ?cfg and w = ?w2 and table_id = "''words''"
      and table_exists = exists and table_create = create]
  have c4: "create Map.empty ''words'' ?cfg = Inr [''words'' \<mapsto> \<lparr>families = ?cfg, store = []\<rparr>]"
    using t2[THEN conjunct2, THEN conjunct2, THEN conjunct2, THEN conjunct2, THEN conjunct2, THEN mp,
        OF conjI[OF h2 conjI[OF h3 h4]]] .
  have c1: "main_create_with exists create ''words'' ?w1
      = Inr \<lparr>stdout = [''Creating the words table.'',
                       ''Creating column family with Max Version GC rule...'',
                       ''Table words already exists.''],
             tabs = [''words'' \<mapsto> ?old]\<rparr>"
    using t1[THEN conjunct1, THEN mp, OF h1'] by simp
  have c2: "main_create_with exists create ''words'' ?w2
      = Inr \<lparr>stdout = [''Creating the words table.'',
                       ''Creating column family with Max Version GC rule...''],
             tabs = [''words'' \<mapsto> \<lparr>families = ?cfg, store = []\<rparr>]\<rparr>"
    using t2[THEN conjunct2, THEN conjunct1, THEN mp, OF h2'] c4
    by (simp add: column_family_id_def)
  have c2': "main_create ''words'' ?w2
      = Inr \<lparr>stdout = [''Creating the words table.'',
                       ''Creating column family with Max Version GC rule...''],
             tabs = [''words'' \<mapsto> \<lparr>families = ?cfg, store = []\<rparr>]\<rparr>"
    using t2[THEN conjunct2, THEN conjunct2, THEN conjunct1, THEN mp, OF h2']
    by (simp add: column_family_id_def)
  have c3: "create [''words'' \<mapsto> ?old] ''words'' ?cfg = Inl TableExistsError"
    using t1[THEN conjunct2, THEN conjunct2, THEN conjunct2, THEN conjunct2, THEN conjunct1, THEN mp,
        OF h1] .
  show ?thesis using h1' c1 h2' c2 c2' h1 c3 h2 h3 h4 c4 by (intro conjI)
qed

end
